theory Spec2Isabelle
  imports Main "HOL-Library.Word" "HOL-Library.Sublist"
begin

unbundle bit_operations_syntax

section \<open>Octets and faults\<close>

type_synonym u8 = "8 word"

text \<open>
  Ways in which the C program leaves defined behaviour or stops: \<open>__builtin_ctz(0)\<close>, an
  array index outside the declared bounds, a dereferenced null pointer, a dereferenced
  pointer that is dangling or of the other kind (leaf for inner node), a failed
  \<open>assert\<close> and a call of \<open>abort()\<close>.
\<close>

datatype fault = Undefined_ctz | Out_of_bounds | Null_deref | Bad_pointer | Assert_failed | Aborted

section \<open>simd.h: vector search primitives\<close>

text \<open>\<open>__builtin_ctz\<close> on an \<open>unsigned int\<close>: undefined for 0.\<close>

fun ctz_bits :: "nat \<Rightarrow> nat \<Rightarrow> nat" where
  "ctz_bits 0 x = 0"
| "ctz_bits (Suc n) x = (if odd x then 0 else Suc (ctz_bits n (x div 2)))"

definition builtin_ctz :: "32 word \<Rightarrow> fault + nat" where
  "builtin_ctz x = (if x = 0 then Inl Undefined_ctz else Inr (ctz_bits 32 (unat x)))"

text \<open>A vector register is the list of its bytes, lowest lane first.\<close>

definition mm_set1_epi8 :: "nat \<Rightarrow> u8 \<Rightarrow> u8 list" where
  "mm_set1_epi8 w c = replicate w c"

definition mm_cmpeq_epi8 :: "u8 list \<Rightarrow> u8 list \<Rightarrow> u8 list" where
  "mm_cmpeq_epi8 a b = map2 (\<lambda>x y. if x = y then 0xFF else 0) a b"

text \<open>The intrinsic compares the lanes as signed bytes.\<close>

definition mm_cmpgt_epi8 :: "u8 list \<Rightarrow> u8 list \<Rightarrow> u8 list" where
  "mm_cmpgt_epi8 a b = map2 (\<lambda>x y. if sint y < sint x then 0xFF else 0) a b"

fun mm_movemask_epi8 :: "u8 list \<Rightarrow> nat" where
  "mm_movemask_epi8 [] = 0"
| "mm_movemask_epi8 (x # xs) = (if bit x 7 then 1 else 0) + 2 * mm_movemask_epi8 xs"

text \<open>\<open>#if HAVE_SSE2\<close> variants.\<close>

definition nsd_v16_findeq_u8_sse2 :: "u8 \<Rightarrow> u8 list \<Rightarrow> u8 \<Rightarrow> fault + u8" where
  "nsd_v16_findeq_u8_sse2 chr vec maxw =
     (let mask = (if maxw < 16 then push_bit (unat maxw) 1 - 1 else - 1) :: 16 word;
          cmp = mm_cmpeq_epi8 (mm_set1_epi8 16 chr) vec;
          bitmap = (of_nat (mm_movemask_epi8 cmp) AND mask) :: 16 word
      in map_sum id of_nat (builtin_ctz (ucast bitmap)))"

definition nsd_v16_findgt_u8_sse2 :: "u8 \<Rightarrow> u8 list \<Rightarrow> u8 \<Rightarrow> fault + u8" where
  "nsd_v16_findgt_u8_sse2 chr vec maxw =
     (let mask = (if maxw < 16 then push_bit (unat maxw) 1 - 1 else - 1) :: 16 word;
          cmp = mm_cmpgt_epi8 (mm_set1_epi8 16 chr) vec;
          bitmap = of_nat (mm_movemask_epi8 cmp) :: 16 word
      in map_sum id of_nat (builtin_ctz (NOT (ucast bitmap) AND ucast mask)))"

text \<open>The scalar variants (\<open>#else\<close>): the loops run over all 16 lanes, \<open>max\<close> (here \<open>maxw\<close>) is not read.\<close>

function v16_findeq_loop :: "u8 \<Rightarrow> u8 list \<Rightarrow> nat \<Rightarrow> u8" where
  "v16_findeq_loop chr vec idx =
     (if idx < 16 then
        (if vec ! idx = chr then of_nat (idx + 1) else v16_findeq_loop chr vec (idx + 1))
      else 0)"
  by pat_completeness auto
termination
  by (relation "measure (\<lambda>(chr, vec, idx). 16 - idx)") auto

definition nsd_v16_findeq_u8_scalar :: "u8 \<Rightarrow> u8 list \<Rightarrow> u8 \<Rightarrow> u8" where
  "nsd_v16_findeq_u8_scalar chr vec maxw = v16_findeq_loop chr vec 0"

function v16_findgt_loop :: "u8 \<Rightarrow> u8 list \<Rightarrow> nat \<Rightarrow> u8" where
  "v16_findgt_loop chr vec idx =
     (if idx < 16 then
        (if chr < vec ! idx then of_nat (idx + 1) else v16_findgt_loop chr vec (idx + 1))
      else 0)"
  by pat_completeness auto
termination
  by (relation "measure (\<lambda>(chr, vec, idx). 16 - idx)") auto

definition nsd_v16_findgt_u8_scalar :: "u8 \<Rightarrow> u8 list \<Rightarrow> u8 \<Rightarrow> u8" where
  "nsd_v16_findgt_u8_scalar chr vec maxw = v16_findgt_loop chr vec 0"

text \<open>\<open>#if HAVE_AVX2\<close> variants.\<close>

definition nsd_v32_findeq_u8 :: "u8 \<Rightarrow> u8 list \<Rightarrow> u8 \<Rightarrow> fault + u8" where
  "nsd_v32_findeq_u8 chr vec maxw =
     (let mask = (if maxw < 32 then push_bit (unat maxw) 1 - 1 else - 1) :: 32 word;
          cmp = mm_cmpeq_epi8 (mm_set1_epi8 32 chr) vec;
          bitmap = (of_nat (mm_movemask_epi8 cmp) AND mask) :: 32 word
      in map_sum id of_nat (builtin_ctz bitmap))"

definition nsd_v32_findgt_u8 :: "u8 \<Rightarrow> u8 list \<Rightarrow> u8 \<Rightarrow> fault + u8" where
  "nsd_v32_findgt_u8 chr vec maxw =
     (let mask = (if maxw < 32 then push_bit (unat maxw) 1 - 1 else - 1) :: 32 word;
          cmp = mm_cmpgt_epi8 (mm_set1_epi8 32 chr) vec;
          bitmap = of_nat (mm_movemask_epi8 cmp) :: 32 word
      in map_sum id of_nat (builtin_ctz (NOT bitmap AND mask)))"

text \<open>
  The behaviour section 4.1 of the specification gives for \<open>findeq(c, v, n)\<close>: the 1-based
  index of the first \<open>i < n\<close> with \<open>v[i] = c\<close>, else 0.
\<close>

fun first_eq_from :: "u8 \<Rightarrow> u8 list \<Rightarrow> nat \<Rightarrow> nat" where
  "first_eq_from c [] i = 0"
| "first_eq_from c (x # xs) i = (if x = c then i else first_eq_from c xs (Suc i))"

definition findeq_spec :: "u8 \<Rightarrow> u8 list \<Rightarrow> u8 \<Rightarrow> u8" where
  "findeq_spec c v n = of_nat (first_eq_from c (take (unat n) v) 1)"

section \<open>tree.c: key transform\<close>

definition xlat :: "u8 \<Rightarrow> u8" where
  "xlat oct = (if oct < 0x41 then oct + 0x01 else if oct < 0x5b then oct + 0x07 else oct - 0x19)"

text \<open>
  \<open>nsd_make_key\<close>. The name is the list of octets the caller's buffer holds and the key
  is the caller's \<open>nsd_key_t\<close> buffer (255 octets); an access outside either is a fault.
  The function writes through \<open>ptr = key - 1\<close>, so \<open>ptr[cnt]\<close> is \<open>key[cnt - 1]\<close>.
\<close>

definition ptr_store :: "u8 list \<Rightarrow> nat \<Rightarrow> u8 \<Rightarrow> fault + u8 list" where
  "ptr_store key cnt v =
     (if 0 < cnt \<and> cnt - 1 < length key then Inr (key[cnt - 1 := v]) else Inl Out_of_bounds)"

text \<open>The inner \<open>for\<close> loop, entered after \<open>++cnt\<close>; it returns the final \<open>cnt\<close> as well.\<close>

function xlat_label :: "u8 list \<Rightarrow> nat \<Rightarrow> nat \<Rightarrow> u8 list \<Rightarrow> fault + nat \<times> u8 list" where
  "xlat_label name cnt len key =
     (if cnt < len then
        (if length name \<le> cnt then Inl Out_of_bounds
         else case ptr_store key cnt (xlat (name ! cnt)) of
                Inl e \<Rightarrow> Inl e
              | Inr key' \<Rightarrow> xlat_label name (cnt + 1) len key')
      else Inr (cnt, key))"
  by pat_completeness auto
termination
  by (relation "measure (\<lambda>(name, cnt, len, key). len - cnt)") auto

declare xlat_label.simps [simp del]

lemma xlat_label_cnt: "xlat_label name cnt len key = Inr (cnt', key') \<Longrightarrow> cnt \<le> cnt'"
proof (induction name cnt len key rule: xlat_label.induct)
  case (1 name cnt len key)
  show ?case
  proof (cases "cnt < len")
    case True
    with "1.prems" obtain k where k: "ptr_store key cnt (xlat (name ! cnt)) = Inr k"
      and r: "xlat_label name (cnt + 1) len k = Inr (cnt', key')" and n: "\<not> length name \<le> cnt"
      by (subst (asm) xlat_label.simps) (auto split: if_splits sum.splits)
    from "1.IH" [OF True n k r] show ?thesis by simp
  next
    case False
    with "1.prems" show ?thesis by (subst (asm) xlat_label.simps) simp
  qed
qed

function make_key_loop :: "u8 list \<Rightarrow> nat \<Rightarrow> nat \<Rightarrow> u8 list \<Rightarrow> fault + u8 \<times> u8 list" where
  "make_key_loop name cnt len key =
     (if length name \<le> cnt then Inl Out_of_bounds
      else if name ! cnt = 0 then
        (case ptr_store key (cnt + 1) 0 of
           Inl e \<Rightarrow> Inl e
         | Inr key' \<Rightarrow> Inr (of_nat (cnt + 1), key'))
      else if name ! cnt AND 0xc0 \<noteq> 0 \<or> 0xff < len + (unat (name ! cnt) + 1) then Inr (0, key)
      else
        (case xlat_label name (cnt + 1) (len + (unat (name ! cnt) + 1)) key of
           Inl e \<Rightarrow> Inl e
         | Inr (cnt', key') \<Rightarrow>
             (case ptr_store key' cnt' 0 of
                Inl e \<Rightarrow> Inl e
              | Inr key'' \<Rightarrow> make_key_loop name cnt' (len + (unat (name ! cnt) + 1)) key'')))"
  by pat_completeness auto
termination
  by (relation "measure (\<lambda>(name, cnt, len, key). length name - cnt)")
     (auto dest!: xlat_label_cnt)

declare make_key_loop.simps [simp del]

text \<open>
  The result is the returned length (the \<open>size_t\<close> count converted to \<open>uint8_t\<close>) and the
  key buffer.
\<close>

definition nsd_make_key :: "u8 list \<Rightarrow> u8 list \<Rightarrow> fault + u8 \<times> u8 list" where
  "nsd_make_key key name = make_key_loop name 0 0 key"

text \<open>The key proper: the first \<open>n\<close> octets of the buffer, \<open>n\<close> the returned length.\<close>

definition key_of :: "u8 \<times> u8 list \<Rightarrow> u8 list" where
  "key_of r = take (unat (fst r)) (snd r)"

subsection \<open>Wire names\<close>

text \<open>
  Section 3 of the specification: a wire name is a sequence of labels, each a length octet
  followed by that many octets, ended by the zero-length root label. \<open>wire ls\<close> is the wire
  form of the labels \<open>ls\<close>, outermost (leftmost) label first.
\<close>

definition wire :: "u8 list list \<Rightarrow> u8 list" where
  "wire ls = concat (map (\<lambda>l. of_nat (length l) # l) ls) @ [0]"

definition valid_labels :: "u8 list list \<Rightarrow> bool" where
  "valid_labels ls \<longleftrightarrow> (\<forall>l \<in> set ls. 0 < length l \<and> length l \<le> 63) \<and> length (wire ls) \<le> 255"

text \<open>The labels of a wire name without the root label that ends it.\<close>

definition labels_wire :: "u8 list list \<Rightarrow> u8 list" where
  "labels_wire ls = concat (map (\<lambda>l. of_nat (length l) # l) ls)"

text \<open>
  Canonical DNS name order (RFC 4034, section 6.1): labels are compared from the rightmost
  one, each as an octet string with upper case US-ASCII letters folded to lower case.
\<close>

definition tolower :: "u8 \<Rightarrow> u8" where
  "tolower c = (if 0x41 \<le> c \<and> c \<le> 0x5a then c + 0x20 else c)"

fun lex_less :: "u8 list \<Rightarrow> u8 list \<Rightarrow> bool" where
  "lex_less [] [] = False"
| "lex_less [] (y # ys) = True"
| "lex_less (x # xs) [] = False"
| "lex_less (x # xs) (y # ys) = (x < y \<or> (x = y \<and> lex_less xs ys))"

fun labels_less :: "u8 list list \<Rightarrow> u8 list list \<Rightarrow> bool" where
  "labels_less [] [] = False"
| "labels_less [] (b # bs) = True"
| "labels_less (a # as) [] = False"
| "labels_less (a # as) (b # bs) =
     (lex_less (map tolower a) (map tolower b) \<or>
      (map tolower a = map tolower b \<and> labels_less as bs))"

definition canonical_dns_less :: "u8 list list \<Rightarrow> u8 list list \<Rightarrow> bool" where
  "canonical_dns_less a b = labels_less (rev a) (rev b)"

text \<open>
  The layout of a key: every label translated octet by octet with \<open>xlat\<close> and followed
  by one \<open>0x00\<close>, then the final \<open>0x00\<close>.
\<close>

definition label_keys :: "u8 list list \<Rightarrow> u8 list" where
  "label_keys ls = concat (map (\<lambda>l. map xlat l @ [0]) ls)"

fun key_layout :: "u8 list list \<Rightarrow> u8 list" where
  "key_layout [] = [0]"
| "key_layout (l # ls) = l @ 0 # key_layout ls"

text \<open>An octet with both of its top two bits set, as a compression pointer has.\<close>

definition top_two_bits_set :: "u8 \<Rightarrow> bool" where
  "top_two_bits_set b \<longleftrightarrow> b AND 0xc0 = 0xc0"

section \<open>tree.h: data model\<close>

datatype nsd_retcode = nsd_ok | nsd_no_memory | nsd_bad_parameter | nsd_not_found

datatype nsd_node_type =
  nsd_node4 | nsd_node16 | nsd_node32 | nsd_node38 | nsd_node48 | nsd_node256

definition NSD_MAX_HEIGHT :: nat where "NSD_MAX_HEIGHT = 255"
definition NSD_MAX_WIDTH :: nat where "NSD_MAX_WIDTH = 230"
definition NSD_MAX_PREFIX :: nat where "NSD_MAX_PREFIX = 8"

text \<open>
  A value of type \<open>nsd_node_t *\<close>: the null pointer, the address of an inner node, or the
  address of a leaf with the low bit set (\<open>SET_LEAF\<close>, \<open>nsd_is_leaf\<close>, \<open>nsd_leaf_raw\<close>).
\<close>

datatype ptr = Null | Node_at nat | Leaf_at nat

text \<open>
  The six node structs share the header \<open>nsd_node_t\<close>; they differ in the sizes of the
  \<open>keys\<close> and \<open>children\<close> arrays (no \<open>keys\<close> array in \<open>nsd_node38_t\<close> and
  \<open>nsd_node256_t\<close>). The field \<open>prefix\<close> is called \<open>prefix_arr\<close> here.
\<close>

record nsd_node =
  ntype :: nsd_node_type
  width :: u8
  prefix_len :: u8
  prefix_arr :: "u8 list"
  keys :: "u8 list"
  children :: "ptr list"

record nsd_leaf =
  leaf_data :: nat
  leaf_key_len :: u8
  leaf_key :: "u8 list"

datatype obj = Inner nsd_node | Leaf nsd_leaf

text \<open>
  The memory the tree lives in: the heap (a cell is \<open>None\<close> once freed), \<open>tree->root\<close>,
  the block-local pointer variable whose address the code takes (\<open>dummy\<close> in the leaf
  split, \<open>node\<close> in the node split), and the answers \<open>calloc\<close>/\<open>malloc\<close> will give to
  the coming requests (\<open>False\<close>: a null result; after the list every request succeeds).
\<close>

record state =
  heap :: "obj option list"
  root :: ptr
  dummy :: ptr
  allocs :: "bool list"

text \<open>
  A value of type \<open>nsd_node_t **\<close>: null, \<open>&tree->root\<close>, the address of the local
  variable, or \<open>&node->children[i]\<close> for the inner node at an address.
\<close>

datatype slot = Null_slot | Root_slot | Local_slot | Child_slot nat nat

text \<open>
  \<open>nsd_path_t\<close>: the levels below \<open>height\<close> in array order, each a depth and a slot;
  the entries at and above \<open>height\<close> are never read.
\<close>

type_synonym level = "u8 \<times> slot"
type_synonym path = "level list"

section \<open>Faults, arrays and the heap\<close>

definition fbind :: "fault + 'a \<Rightarrow> ('a \<Rightarrow> fault + 'b) \<Rightarrow> fault + 'b" where
  "fbind m f = (case m of Inl e \<Rightarrow> Inl e | Inr x \<Rightarrow> f x)"

lemma fbind_cong [fundef_cong]:
  "m = m' \<Longrightarrow> (\<And>x. m' = Inr x \<Longrightarrow> f x = f' x) \<Longrightarrow> fbind m f = fbind m' f'"
  by (cases m') (simp_all add: fbind_def)

lemma fbind_simps [simp, code]:
  "fbind (Inl e) f = Inl e" "fbind (Inr x) f = f x"
  by (simp_all add: fbind_def)

definition cassert :: "bool \<Rightarrow> fault + unit" where
  "cassert b = (if b then Inr () else Inl Assert_failed)"

definition arr_get :: "'a list \<Rightarrow> nat \<Rightarrow> fault + 'a" where
  "arr_get xs i = (if i < length xs then Inr (xs ! i) else Inl Out_of_bounds)"

definition arr_set :: "'a list \<Rightarrow> nat \<Rightarrow> 'a \<Rightarrow> fault + 'a list" where
  "arr_set xs i v = (if i < length xs then Inr (xs[i := v]) else Inl Out_of_bounds)"

text \<open>\<open>memmove(&xs[dst], &xs[src], n)\<close> and \<open>memcpy(dest, &src[off], n)\<close>, in elements.\<close>

definition memmove :: "'a list \<Rightarrow> nat \<Rightarrow> nat \<Rightarrow> nat \<Rightarrow> fault + 'a list" where
  "memmove xs dst src n =
     (if dst + n \<le> length xs \<and> src + n \<le> length xs
      then Inr (take dst xs @ take n (drop src xs) @ drop (dst + n) xs)
      else Inl Out_of_bounds)"

definition memcpy :: "'a list \<Rightarrow> 'a list \<Rightarrow> nat \<Rightarrow> nat \<Rightarrow> fault + 'a list" where
  "memcpy dest src off n =
     (if n \<le> length dest \<and> off + n \<le> length src
      then Inr (take n (drop off src) @ drop n dest)
      else Inl Out_of_bounds)"

fun foldM :: "('b \<Rightarrow> 'a \<Rightarrow> fault + 'a) \<Rightarrow> 'b list \<Rightarrow> 'a \<Rightarrow> fault + 'a" where
  "foldM f [] a = Inr a"
| "foldM f (x # xs) a = fbind (f x a) (foldM f xs)"

text \<open>Dereferencing a pointer as an inner node, or as a leaf after \<open>nsd_leaf_raw\<close>.\<close>

definition node_at :: "state \<Rightarrow> ptr \<Rightarrow> fault + nat \<times> nsd_node" where
  "node_at s p =
     (case p of
        Null \<Rightarrow> Inl Null_deref
      | Leaf_at a \<Rightarrow> Inl Bad_pointer
      | Node_at a \<Rightarrow>
          (if a < length (heap s) then
             (case heap s ! a of Some (Inner n) \<Rightarrow> Inr (a, n) | _ \<Rightarrow> Inl Bad_pointer)
           else Inl Bad_pointer))"

definition leaf_at :: "state \<Rightarrow> ptr \<Rightarrow> fault + nat \<times> nsd_leaf" where
  "leaf_at s p =
     (case p of
        Null \<Rightarrow> Inl Null_deref
      | Node_at a \<Rightarrow> Inl Bad_pointer
      | Leaf_at a \<Rightarrow>
          (if a < length (heap s) then
             (case heap s ! a of Some (Leaf l) \<Rightarrow> Inr (a, l) | _ \<Rightarrow> Inl Bad_pointer)
           else Inl Bad_pointer))"

definition set_node :: "state \<Rightarrow> nat \<Rightarrow> nsd_node \<Rightarrow> state" where
  "set_node s a n = s\<lparr>heap := (heap s)[a := Some (Inner n)]\<rparr>"

definition load :: "state \<Rightarrow> slot \<Rightarrow> fault + ptr" where
  "load s r =
     (case r of
        Null_slot \<Rightarrow> Inl Null_deref
      | Root_slot \<Rightarrow> Inr (root s)
      | Local_slot \<Rightarrow> Inr (dummy s)
      | Child_slot a i \<Rightarrow> fbind (node_at s (Node_at a)) (\<lambda>(a, n). arr_get (children n) i))"

definition store :: "state \<Rightarrow> slot \<Rightarrow> ptr \<Rightarrow> fault + state" where
  "store s r p =
     (case r of
        Null_slot \<Rightarrow> Inl Null_deref
      | Root_slot \<Rightarrow> Inr (s\<lparr>root := p\<rparr>)
      | Local_slot \<Rightarrow> Inr (s\<lparr>dummy := p\<rparr>)
      | Child_slot a i \<Rightarrow>
          fbind (node_at s (Node_at a)) (\<lambda>(a, n).
          fbind (arr_set (children n) i p) (\<lambda>cs.
          Inr (set_node s a (n\<lparr>children := cs\<rparr>)))))"

text \<open>An allocation request: the address of the new cell, or \<open>None\<close> for a null result.\<close>

definition alloc :: "state \<Rightarrow> obj \<Rightarrow> nat option \<times> state" where
  "alloc s ob =
     (case allocs s of
        [] \<Rightarrow> (Some (length (heap s)), s\<lparr>heap := heap s @ [Some ob]\<rparr>)
      | b # bs \<Rightarrow>
          (if b then (Some (length (heap s)), s\<lparr>heap := heap s @ [Some ob], allocs := bs\<rparr>)
           else (None, s\<lparr>allocs := bs\<rparr>)))"

section \<open>tree.c: nodes\<close>

definition node38_xlat :: "u8 \<Rightarrow> u8" where
  "node38_xlat key =
     (if 0x48 \<le> key \<and> key \<le> 0x61 then key - 0x3c
      else if 0x31 \<le> key \<and> key \<le> 0x3a then key - 0x2f
      else if key = 0x2e then 0x01
      else if key = 0x00 then 0x00
      else - 1)"

definition node38_unxlat :: "u8 \<Rightarrow> u8" where
  "node38_unxlat key =
     (if 0x0b \<le> key \<and> key \<le> 0x25 then key + 0x3c
      else if 0x02 \<le> key \<and> key \<le> 0x0b then key + 0x2f
      else if key = 0x01 then 0x2e
      else if key = 0x00 then 0x00
      else - 1)"

function compare_keys_loop :: "u8 list \<Rightarrow> u8 list \<Rightarrow> u8 \<Rightarrow> nat \<Rightarrow> fault + u8" where
  "compare_keys_loop key1 key2 len cnt =
     (if cnt < unat len then
        fbind (arr_get key1 cnt) (\<lambda>k1.
        fbind (arr_get key2 cnt) (\<lambda>k2.
        if k1 = k2 then compare_keys_loop key1 key2 len (cnt + 1) else Inr (of_nat cnt)))
      else Inr (of_nat cnt))"
  by pat_completeness auto
termination
  by (relation "measure (\<lambda>(key1, key2, len, cnt). unat len - cnt)") auto

declare compare_keys_loop.simps [simp del]

definition compare_keys :: "u8 list \<Rightarrow> u8 \<Rightarrow> u8 list \<Rightarrow> u8 \<Rightarrow> fault + u8" where
  "compare_keys key1 key1_len key2 key2_len =
     compare_keys_loop key1 key2 (if key1_len < key2_len then key1_len else key2_len) 0"

text \<open>\<open>calloc\<close> gives a zeroed struct of the size of the node type.\<close>

definition keys_size :: "nsd_node_type \<Rightarrow> nat" where
  "keys_size t =
     (case t of nsd_node4 \<Rightarrow> 4 | nsd_node16 \<Rightarrow> 16 | nsd_node32 \<Rightarrow> 32 | nsd_node38 \<Rightarrow> 0
      | nsd_node48 \<Rightarrow> NSD_MAX_WIDTH | nsd_node256 \<Rightarrow> 0)"

definition children_size :: "nsd_node_type \<Rightarrow> nat" where
  "children_size t =
     (case t of nsd_node4 \<Rightarrow> 4 | nsd_node16 \<Rightarrow> 16 | nsd_node32 \<Rightarrow> 32 | nsd_node38 \<Rightarrow> 38
      | nsd_node48 \<Rightarrow> 48 | nsd_node256 \<Rightarrow> NSD_MAX_WIDTH)"

definition zeroed_node :: "nsd_node_type \<Rightarrow> nsd_node" where
  "zeroed_node t =
     \<lparr>ntype = t, width = 0, prefix_len = 0, prefix_arr = replicate NSD_MAX_PREFIX 0,
      keys = replicate (keys_size t) 0, children = replicate (children_size t) Null\<rparr>"

definition alloc_node :: "state \<Rightarrow> nsd_node_type \<Rightarrow> nat option \<times> state" where
  "alloc_node s t = alloc s (Inner (zeroed_node t))"

definition copy_header :: "nsd_node \<Rightarrow> nsd_node \<Rightarrow> fault + nsd_node" where
  "copy_header dest src =
     fbind (memcpy (prefix_arr dest) (prefix_arr src) 0 (unat (prefix_len src))) (\<lambda>pre.
     Inr (dest\<lparr>width := width src, prefix_arr := pre, prefix_len := prefix_len src\<rparr>))"

text \<open>
  \<open>make_leaf\<close>: \<open>malloc\<close>, then a copy of \<open>key_len\<close> octets of the key into the leaf.
\<close>

definition make_leaf :: "state \<Rightarrow> u8 list \<Rightarrow> u8 \<Rightarrow> fault + nat option \<times> state" where
  "make_leaf s key key_len =
     (case alloc s (Leaf \<lparr>leaf_data = 0, leaf_key_len = key_len,
                          leaf_key = take (unat key_len) key\<rparr>) of
        (None, s1) \<Rightarrow> Inr (None, s1)
      | (Some l, s1) \<Rightarrow>
          (if unat key_len \<le> length key then Inr (Some l, s1) else Inl Out_of_bounds))"

definition free_node :: "state \<Rightarrow> ptr \<Rightarrow> state" where
  "free_node s p =
     (case p of
        Null \<Rightarrow> s
      | Node_at a \<Rightarrow> s\<lparr>heap := (heap s)[a := None]\<rparr>
      | Leaf_at a \<Rightarrow> s\<lparr>heap := (heap s)[a := None]\<rparr>)"

subsection \<open>find_child\<close>

definition find_child256 :: "nat \<Rightarrow> nsd_node \<Rightarrow> u8 \<Rightarrow> fault + slot" where
  "find_child256 a node256 key = Inr (Child_slot a (unat key))"

definition find_child48 :: "nat \<Rightarrow> nsd_node \<Rightarrow> u8 \<Rightarrow> fault + slot" where
  "find_child48 a node48 key =
     fbind (arr_get (keys node48) (unat key)) (\<lambda>idx.
     Inr (if idx \<noteq> 0 then Child_slot a (unat idx - 1) else Null_slot))"

definition find_child38 :: "nat \<Rightarrow> nsd_node \<Rightarrow> u8 \<Rightarrow> fault + slot" where
  "find_child38 a node38 key =
     (let idx = node38_xlat key in
      Inr (if idx \<noteq> - 1 then Child_slot a (unat idx) else Null_slot))"

definition find_child32 :: "nat \<Rightarrow> nsd_node \<Rightarrow> u8 \<Rightarrow> fault + slot" where
  "find_child32 a node32 key =
     fbind (nsd_v32_findeq_u8 key (keys node32) (width node32)) (\<lambda>idx.
     Inr (if idx \<noteq> 0 then Child_slot a (unat idx - 1) else Null_slot))"

text \<open>
  The build flag \<open>HAVE_SSE2\<close> is the parameter \<open>sse2\<close>. \<open>HAVE_AVX2\<close> is taken as set:
  without it \<open>add_child16\<close> refers to undeclared identifiers and does not compile.
\<close>

definition nsd_v16_findeq_u8 :: "bool \<Rightarrow> u8 \<Rightarrow> u8 list \<Rightarrow> u8 \<Rightarrow> fault + u8" where
  "nsd_v16_findeq_u8 sse2 chr vec maxw =
     (if sse2 then nsd_v16_findeq_u8_sse2 chr vec maxw
      else Inr (nsd_v16_findeq_u8_scalar chr vec maxw))"

definition nsd_v16_findgt_u8 :: "bool \<Rightarrow> u8 \<Rightarrow> u8 list \<Rightarrow> u8 \<Rightarrow> fault + u8" where
  "nsd_v16_findgt_u8 sse2 chr vec maxw =
     (if sse2 then nsd_v16_findgt_u8_sse2 chr vec maxw
      else Inr (nsd_v16_findgt_u8_scalar chr vec maxw))"

definition find_child16 :: "bool \<Rightarrow> nat \<Rightarrow> nsd_node \<Rightarrow> u8 \<Rightarrow> fault + slot" where
  "find_child16 sse2 a node16 key =
     fbind (nsd_v16_findeq_u8 sse2 key (keys node16) (width node16)) (\<lambda>idx.
     Inr (if idx \<noteq> 0 then Child_slot a (unat idx - 1) else Null_slot))"

function find_child4_loop :: "nat \<Rightarrow> nsd_node \<Rightarrow> u8 \<Rightarrow> nat \<Rightarrow> fault + slot" where
  "find_child4_loop a node4 key idx =
     (if idx < unat (width node4) then
        fbind (arr_get (keys node4) idx) (\<lambda>k.
        if k = key then Inr (Child_slot a idx) else find_child4_loop a node4 key (idx + 1))
      else Inr Null_slot)"
  by pat_completeness auto
termination
  by (relation "measure (\<lambda>(a, node4, key, idx). unat (width node4) - idx)") auto

declare find_child4_loop.simps [simp del]

definition find_child4 :: "nat \<Rightarrow> nsd_node \<Rightarrow> u8 \<Rightarrow> fault + slot" where
  "find_child4 a node4 key = find_child4_loop a node4 key 0"

definition find_child :: "bool \<Rightarrow> state \<Rightarrow> ptr \<Rightarrow> u8 \<Rightarrow> fault + slot" where
  "find_child sse2 s node key =
     fbind (cassert (node \<noteq> Null)) (\<lambda>_.
     fbind (node_at s node) (\<lambda>(a, n).
     case ntype n of
       nsd_node4 \<Rightarrow> find_child4 a n key
     | nsd_node16 \<Rightarrow> find_child16 sse2 a n key
     | nsd_node32 \<Rightarrow> find_child32 a n key
     | nsd_node38 \<Rightarrow> find_child38 a n key
     | nsd_node48 \<Rightarrow> find_child48 a n key
     | nsd_node256 \<Rightarrow> find_child256 a n key))"

subsection \<open>add_child\<close>

text \<open>
  Every \<open>add_child\<close> function returns the slot of the new child (null when the
  allocation for a promotion failed) and the new memory.
\<close>

text \<open>
  The end of every promotion: the fields of the new node are in its cell \<open>b\<close>, then
  \<open>*noderef = new; free_node(old);\<close> with the old node in cell \<open>a\<close>.
\<close>

definition install :: "state \<Rightarrow> nat \<Rightarrow> nsd_node \<Rightarrow> slot \<Rightarrow> nat \<Rightarrow> fault + state" where
  "install s b node' noderef a =
     fbind (store (set_node s b node') noderef (Node_at b)) (\<lambda>s2.
     Inr (free_node s2 (Node_at a)))"

definition add_child256 :: "state \<Rightarrow> slot \<Rightarrow> u8 \<Rightarrow> ptr \<Rightarrow> fault + slot \<times> state" where
  "add_child256 s noderef key node =
     fbind (load s noderef) (\<lambda>p.
     fbind (cassert (p \<noteq> Null)) (\<lambda>_.
     fbind (node_at s p) (\<lambda>(a, node256).
     fbind (cassert (ntype node256 = nsd_node256)) (\<lambda>_.
     fbind (arr_get (children node256) (unat key)) (\<lambda>c.
     fbind (cassert (c = Null)) (\<lambda>_.
     fbind (arr_set (children node256) (unat key) node) (\<lambda>cs.
     Inr (Child_slot a (unat key),
          set_node s a (node256\<lparr>width := width node256 + 1, children := cs\<rparr>)))))))))"

text \<open>
  The copy loop of the promotion to \<open>nsd_node256_t\<close>. Its counter \<open>idx\<close> is a
  \<open>uint8_t\<close>, so the condition \<open>idx < 256\<close> always holds and only the \<open>break\<close> ends
  the loop; a read of \<open>keys\<close> past its end is a fault here.
\<close>

function grow48_loop :: "nsd_node \<Rightarrow> nat \<Rightarrow> u8 \<Rightarrow> ptr list \<Rightarrow> fault + ptr list \<times> u8" where
  "grow48_loop node48 idx cnt cs =
     fbind (arr_get (keys node48) idx) (\<lambda>k.
     if k \<noteq> 0 then
       fbind (arr_get (children node48) (unat k - 1)) (\<lambda>c.
       fbind (arr_set cs idx c) (\<lambda>cs'.
       if cnt + 1 = width node48 then Inr (cs', cnt + 1)
       else grow48_loop node48 (idx + 1) (cnt + 1) cs'))
     else grow48_loop node48 (idx + 1) cnt cs)"
  by pat_completeness auto
termination
  by (relation "measure (\<lambda>(node48, idx, cnt, cs). length (keys node48) - idx)")
     (auto simp: arr_get_def split: if_splits)

declare grow48_loop.simps [simp del]

definition add_child48 :: "state \<Rightarrow> slot \<Rightarrow> u8 \<Rightarrow> ptr \<Rightarrow> fault + slot \<times> state" where
  "add_child48 s noderef key node =
     fbind (load s noderef) (\<lambda>p.
     fbind (cassert (p \<noteq> Null)) (\<lambda>_.
     fbind (node_at s p) (\<lambda>(a, node48).
     fbind (cassert (ntype node48 = nsd_node48)) (\<lambda>_.
     if width node48 = 48 then
       (case alloc_node s nsd_node256 of
          (None, s1) \<Rightarrow> Inr (Null_slot, s1)
        | (Some b, s1) \<Rightarrow>
            fbind (copy_header (zeroed_node nsd_node256) node48) (\<lambda>node256.
            fbind (grow48_loop node48 0 0 (children node256)) (\<lambda>(cs, cnt).
            fbind (cassert (cnt = width node48)) (\<lambda>_.
            fbind (install s1 b (node256\<lparr>children := cs\<rparr>) noderef a) (\<lambda>s2.
            add_child256 s2 noderef key node)))))
     else
       fbind (cassert (width node48 < 48)) (\<lambda>_.
       fbind (arr_get (keys node48) (unat key)) (\<lambda>k.
       fbind (cassert (k = 0)) (\<lambda>_.
       fbind (arr_set (keys node48) (unat key) (width node48 + 1)) (\<lambda>ks.
       fbind (arr_set (children node48) (unat (width node48 + 1) - 1) node) (\<lambda>cs.
       Inr (Child_slot a (unat (width node48 + 1) - 1),
            set_node s a (node48\<lparr>width := width node48 + 1, keys := ks, children := cs\<rparr>)))))))))))"

text \<open>The copy loop of the promotion from \<open>nsd_node38_t\<close> to \<open>nsd_node48_t\<close>.\<close>

function grow38_loop ::
  "nsd_node \<Rightarrow> nat \<Rightarrow> u8 \<Rightarrow> u8 list \<Rightarrow> ptr list \<Rightarrow> fault + u8 list \<times> ptr list \<times> u8" where
  "grow38_loop node38 idx cnt ks cs =
     (if idx < 38 then
        fbind (arr_get (children node38) idx) (\<lambda>c.
        if c \<noteq> Null then
          fbind (arr_set cs (unat cnt) c) (\<lambda>cs'.
          fbind (arr_set ks (unat (node38_unxlat (of_nat idx))) (cnt + 1)) (\<lambda>ks'.
          if cnt + 1 = width node38 then Inr (ks', cs', cnt + 1)
          else grow38_loop node38 (idx + 1) (cnt + 1) ks' cs'))
        else grow38_loop node38 (idx + 1) cnt ks cs)
      else Inr (ks, cs, cnt))"
  by pat_completeness auto
termination
  by (relation "measure (\<lambda>(node38, idx, cnt, ks, cs). 38 - idx)") auto

declare grow38_loop.simps [simp del]

definition add_child38 :: "state \<Rightarrow> slot \<Rightarrow> u8 \<Rightarrow> ptr \<Rightarrow> fault + slot \<times> state" where
  "add_child38 s noderef key child =
     fbind (load s noderef) (\<lambda>p.
     fbind (cassert (p \<noteq> Null)) (\<lambda>_.
     fbind (node_at s p) (\<lambda>(a, node38).
     fbind (cassert (ntype node38 = nsd_node38)) (\<lambda>_.
     let idx = node38_xlat key in
     if idx = - 1 then
       (case alloc_node s nsd_node48 of
          (None, s1) \<Rightarrow> Inr (Null_slot, s1)
        | (Some b, s1) \<Rightarrow>
            fbind (copy_header (zeroed_node nsd_node48) node38) (\<lambda>node48.
            fbind (grow38_loop node38 0 0 (keys node48) (children node48)) (\<lambda>(ks, cs, cnt).
            fbind (cassert (cnt = width node38)) (\<lambda>_.
            fbind (install s1 b (node48\<lparr>keys := ks, children := cs\<rparr>) noderef a) (\<lambda>s2.
            add_child48 s2 noderef key child)))))
     else
       fbind (cassert (width node38 < 38)) (\<lambda>_.
       fbind (arr_get (children node38) (unat idx)) (\<lambda>c.
       fbind (cassert (c = Null)) (\<lambda>_.
       fbind (arr_set (children node38) (unat idx) child) (\<lambda>cs.
       Inr (Child_slot a (unat idx),
            set_node s a (node38\<lparr>width := width node38 + 1, children := cs\<rparr>))))))))))"

text \<open>
  \<open>for (idx = 0; ishost && idx < n; idx++) ishost = (node38_xlat(keys[idx]) != -1)\<close>
\<close>

function ishost_loop :: "u8 list \<Rightarrow> nat \<Rightarrow> nat \<Rightarrow> bool \<Rightarrow> fault + bool" where
  "ishost_loop ks n idx ishost =
     (if ishost \<and> idx < n then
        fbind (arr_get ks idx) (\<lambda>k. ishost_loop ks n (idx + 1) (node38_xlat k \<noteq> - 1))
      else Inr ishost)"
  by pat_completeness auto
termination
  by (relation "measure (\<lambda>(ks, n, idx, ishost). n - idx)") auto

declare ishost_loop.simps [simp del]

text \<open>
  The insertion into a node with sorted keys that is not full (\<open>nsd_node16_t\<close> and
  \<open>nsd_node32_t\<close>): \<open>idx\<close> is what \<open>findgt\<close> returned.
\<close>

definition insert_sorted :: "state \<Rightarrow> nat \<Rightarrow> nsd_node \<Rightarrow> u8 \<Rightarrow> u8 \<Rightarrow> ptr \<Rightarrow> fault + slot \<times> state" where
  "insert_sorted s a n idx0 key child =
     fbind
       (if idx0 \<noteq> 0 then
          fbind (cassert (idx0 < width n)) (\<lambda>_.
          fbind (memmove (keys n) (unat idx0 + 1) (unat idx0) (unat (width n) - unat idx0)) (\<lambda>ks.
          fbind (memmove (children n) (unat idx0 + 1) (unat idx0) (unat (width n) - unat idx0)) (\<lambda>cs.
          Inr (idx0, ks, cs))))
        else Inr (width n, keys n, children n))
       (\<lambda>(idx, ks, cs).
     fbind (arr_set ks (unat idx) key) (\<lambda>ks'.
     fbind (arr_set cs (unat idx) child) (\<lambda>cs'.
     Inr (Child_slot a (unat idx),
          set_node s a (n\<lparr>width := width n + 1, keys := ks', children := cs'\<rparr>)))))"

definition add_child32 :: "state \<Rightarrow> slot \<Rightarrow> u8 \<Rightarrow> ptr \<Rightarrow> fault + slot \<times> state" where
  "add_child32 s noderef key child =
     fbind (load s noderef) (\<lambda>p.
     fbind (cassert (p \<noteq> Null)) (\<lambda>_.
     fbind (node_at s p) (\<lambda>(a, node32).
     fbind (cassert (ntype node32 = nsd_node32)) (\<lambda>_.
     if width node32 = 32 then
       fbind (ishost_loop (keys node32) 32 0 (node38_xlat key \<noteq> - 1)) (\<lambda>ishost.
       if ishost then
         (case alloc_node s nsd_node38 of
            (None, s1) \<Rightarrow> Inr (Null_slot, s1)
          | (Some b, s1) \<Rightarrow>
              fbind (copy_header (zeroed_node nsd_node38) node32) (\<lambda>node38.
              fbind (foldM (\<lambda>idx cs.
                       fbind (arr_get (keys node32) idx) (\<lambda>k.
                       fbind (arr_get (children node32) idx) (\<lambda>c.
                       arr_set cs (unat (node38_xlat k)) c)))
                     [0 ..< 32] (children node38)) (\<lambda>cs.
              fbind (install s1 b (node38\<lparr>children := cs\<rparr>) noderef a) (\<lambda>s2.
            add_child38 s2 noderef key child))))
       else
         (case alloc_node s nsd_node48 of
            (None, s1) \<Rightarrow> Inr (Null_slot, s1)
          | (Some b, s1) \<Rightarrow>
              fbind (copy_header (zeroed_node nsd_node48) node32) (\<lambda>node48.
              fbind (foldM (\<lambda>idx (ks, cs, cnt).
                       fbind (arr_get (children node32) idx) (\<lambda>c.
                       fbind (arr_set cs (unat cnt) c) (\<lambda>cs'.
                       fbind (arr_get (keys node32) idx) (\<lambda>k.
                       fbind (arr_set ks (unat k) (cnt + 1)) (\<lambda>ks'.
                       Inr (ks', cs', cnt + 1))))))
                     [0 ..< 32] (keys node48, children node48, 0 :: u8)) (\<lambda>(ks, cs, cnt).
              fbind (install s1 b (node48\<lparr>keys := ks, children := cs\<rparr>) noderef a) (\<lambda>s2.
            add_child48 s2 noderef key child)))))
     else
       fbind (cassert (width node32 < 32)) (\<lambda>_.
       fbind (nsd_v32_findgt_u8 key (keys node32) (width node32)) (\<lambda>idx.
       insert_sorted s a node32 idx key child))))))"

definition add_child16 :: "bool \<Rightarrow> state \<Rightarrow> slot \<Rightarrow> u8 \<Rightarrow> ptr \<Rightarrow> fault + slot \<times> state" where
  "add_child16 sse2 s noderef key child =
     fbind (load s noderef) (\<lambda>p.
     fbind (cassert (p \<noteq> Null)) (\<lambda>_.
     fbind (node_at s p) (\<lambda>(a, node16).
     fbind (cassert (ntype node16 = nsd_node16)) (\<lambda>_.
     if width node16 = 16 then
       (case alloc_node s nsd_node32 of
          (None, s1) \<Rightarrow> Inr (Null_slot, s1)
        | (Some b, s1) \<Rightarrow>
            fbind (copy_header (zeroed_node nsd_node32) node16) (\<lambda>node32.
            fbind (memcpy (keys node32) (keys node16) 0 16) (\<lambda>ks.
            fbind (memcpy (children node32) (children node16) 0 16) (\<lambda>cs.
            fbind (install s1 b (node32\<lparr>keys := ks, children := cs\<rparr>) noderef a) (\<lambda>s2.
            add_child32 s2 noderef key child)))))
     else
       fbind (cassert (width node16 < 16)) (\<lambda>_.
       fbind (nsd_v16_findgt_u8 sse2 key (keys node16) (width node16)) (\<lambda>idx.
       insert_sorted s a node16 idx key child))))))"

text \<open>\<open>for (idx = 0; idx < node4->base.width && key > node4->keys[idx]; idx++) { }\<close>\<close>

function add_child4_scan :: "nsd_node \<Rightarrow> u8 \<Rightarrow> nat \<Rightarrow> fault + nat" where
  "add_child4_scan node4 key idx =
     (if idx < unat (width node4) then
        fbind (arr_get (keys node4) idx) (\<lambda>k.
        if k < key then add_child4_scan node4 key (idx + 1) else Inr idx)
      else Inr idx)"
  by pat_completeness auto
termination
  by (relation "measure (\<lambda>(node4, key, idx). unat (width node4) - idx)") auto

declare add_child4_scan.simps [simp del]

definition add_child4 :: "bool \<Rightarrow> state \<Rightarrow> slot \<Rightarrow> u8 \<Rightarrow> ptr \<Rightarrow> fault + slot \<times> state" where
  "add_child4 sse2 s noderef key child =
     fbind (load s noderef) (\<lambda>p.
     fbind (node_at s p) (\<lambda>(a, node4).
     if width node4 = 4 then
       (case alloc_node s nsd_node16 of
          (None, s1) \<Rightarrow> Inr (Null_slot, s1)
        | (Some b, s1) \<Rightarrow>
            fbind (copy_header (zeroed_node nsd_node16) node4) (\<lambda>node16.
            fbind (memcpy (keys node16) (keys node4) 0 4) (\<lambda>ks.
            fbind (memcpy (children node16) (children node4) 0 4) (\<lambda>cs.
            fbind (install s1 b (node16\<lparr>keys := ks, children := cs\<rparr>) noderef a) (\<lambda>s2.
            add_child16 sse2 s2 noderef key child)))))
     else
       fbind (cassert (width node4 < 4)) (\<lambda>_.
       fbind (add_child4_scan node4 key 0) (\<lambda>idx.
       fbind
         (if idx < unat (width node4) then
            fbind (arr_get (keys node4) idx) (\<lambda>k.
            fbind (cassert (key \<noteq> k)) (\<lambda>_.
            fbind (memmove (keys node4) (idx + 1) idx (unat (width node4) - idx)) (\<lambda>ks.
            fbind (memmove (children node4) (idx + 1) idx (unat (width node4) - idx)) (\<lambda>cs.
            Inr (ks, cs)))))
          else Inr (keys node4, children node4))
         (\<lambda>(ks, cs).
       fbind (arr_set ks idx key) (\<lambda>ks'.
       fbind (arr_set cs idx child) (\<lambda>cs'.
       Inr (Child_slot a idx,
            set_node s a (node4\<lparr>width := width node4 + 1, keys := ks', children := cs'\<rparr>)))))))))"

definition add_child :: "bool \<Rightarrow> state \<Rightarrow> slot \<Rightarrow> u8 \<Rightarrow> ptr \<Rightarrow> fault + slot \<times> state" where
  "add_child sse2 s noderef key child =
     fbind (cassert (noderef \<noteq> Null_slot)) (\<lambda>_.
     fbind (load s noderef) (\<lambda>p.
     fbind (node_at s p) (\<lambda>(a, n).
     case ntype n of
       nsd_node4 \<Rightarrow> add_child4 sse2 s noderef key child
     | nsd_node16 \<Rightarrow> add_child16 sse2 s noderef key child
     | nsd_node32 \<Rightarrow> add_child32 s noderef key child
     | nsd_node38 \<Rightarrow> add_child38 s noderef key child
     | nsd_node48 \<Rightarrow> add_child48 s noderef key child
     | nsd_node256 \<Rightarrow> add_child256 s noderef key child)))"

section \<open>tree.c: paths\<close>

datatype ('r, 'c) step = Return 'r | Continue 'c

text \<open>\<open>path->levels[path->height - 1].noderef\<close> and the store at \<open>levels[height]\<close>.\<close>

definition top_level :: "path \<Rightarrow> fault + level" where
  "top_level path = (if path = [] then Inl Out_of_bounds else Inr (last path))"

definition push :: "path \<Rightarrow> level \<Rightarrow> fault + path" where
  "push path lv = (if length path < NSD_MAX_HEIGHT then Inr (path @ [lv]) else Inl Out_of_bounds)"

text \<open>The common entry of \<open>nsd_find_path\<close> and \<open>nsd_make_path\<close>: the path and \<open>depth\<close>.\<close>

definition path_entry :: "path \<Rightarrow> u8 \<Rightarrow> fault + path \<times> u8" where
  "path_entry path key_len =
     fbind (cassert (key_len \<noteq> 0)) (\<lambda>_.
     fbind
       (if path = [] then Inr ([(0, Root_slot)], 0)
        else
          fbind (cassert (fst (hd path) = 0)) (\<lambda>_.
          fbind (cassert (snd (hd path) = Root_slot)) (\<lambda>_.
          Inr (path, fst (last path)))))
       (\<lambda>(path', depth).
     fbind (cassert (fst (last path') \<le> key_len)) (\<lambda>_.
     Inr (path', depth))))"

subsection \<open>nsd_find_path\<close>

definition find_path_iter ::
  "bool \<Rightarrow> state \<Rightarrow> path \<Rightarrow> u8 list \<Rightarrow> u8 \<Rightarrow> u8 \<Rightarrow> fault + (nsd_retcode \<times> path, u8 \<times> path) step" where
  "find_path_iter sse2 s path key key_len depth =
     fbind (top_level path) (\<lambda>(_, noderef).
     fbind (load s noderef) (\<lambda>p.
     case p of
       Leaf_at _ \<Rightarrow>
         fbind (leaf_at s p) (\<lambda>(_, lf).
         fbind (cassert (leaf_key_len lf \<le> key_len)) (\<lambda>_.
         fbind (compare_keys key key_len (leaf_key lf) (leaf_key_len lf)) (\<lambda>cnt.
         fbind (cassert (depth \<le> cnt)) (\<lambda>_.
         if cnt = key_len then
           fbind (cassert (key_len = leaf_key_len lf)) (\<lambda>_. Inr (Return (nsd_ok, path)))
         else Inr (Return (nsd_not_found, butlast path))))))
     | _ \<Rightarrow>
         fbind (node_at s p) (\<lambda>(_, n).
         fbind
           (if prefix_len n \<noteq> 0 then
              fbind (compare_keys (drop (unat depth) key) (key_len - depth)
                       (prefix_arr n) (prefix_len n)) (\<lambda>cnt.
              Inr (if cnt = prefix_len n then Continue (depth + cnt)
                   else Return (nsd_not_found, butlast path)))
            else Inr (Continue depth))
           (\<lambda>r. case r of
              Return x \<Rightarrow> Inr (Return x)
            | Continue depth' \<Rightarrow>
                fbind (arr_get key (unat depth')) (\<lambda>k.
                fbind (find_child sse2 s p k) (\<lambda>childref.
                if childref = Null_slot then Inr (Return (nsd_not_found, path))
                else
                  fbind (push path (depth', childref)) (\<lambda>path'.
                  Inr (Continue (depth' + 1, path')))))))))"

partial_function (option) find_path_loop ::
  "bool \<Rightarrow> state \<Rightarrow> path \<Rightarrow> u8 list \<Rightarrow> u8 \<Rightarrow> u8 \<Rightarrow> (fault + nsd_retcode \<times> path) option" where
  "find_path_loop sse2 s path key key_len depth =
     (if depth < key_len then
        (case find_path_iter sse2 s path key key_len depth of
           Inl e \<Rightarrow> Some (Inl e)
         | Inr (Return r) \<Rightarrow> Some (Inr r)
         | Inr (Continue (depth', path')) \<Rightarrow> find_path_loop sse2 s path' key key_len depth')
      else Some (Inr (nsd_ok, path)))"

declare find_path_loop.simps [code]

text \<open>The result is \<open>None\<close> when the loop does not end.\<close>

definition nsd_find_path ::
  "bool \<Rightarrow> state \<Rightarrow> path \<Rightarrow> u8 list \<Rightarrow> u8 \<Rightarrow> (fault + nsd_retcode \<times> path) option" where
  "nsd_find_path sse2 s path key key_len =
     (case path_entry path key_len of
        Inl e \<Rightarrow> Some (Inl e)
      | Inr (path', depth) \<Rightarrow> find_path_loop sse2 s path' key key_len depth)"

subsection \<open>nsd_make_path\<close>

text \<open>
  \<open>while (relpath.height > 0) free_node(*relpath.levels[--relpath.height].noderef)\<close>
\<close>

function discard_chain :: "state \<Rightarrow> path \<Rightarrow> fault + state" where
  "discard_chain s relpath =
     (if relpath = [] then Inr s
      else fbind (load s (snd (last relpath))) (\<lambda>p.
           discard_chain (free_node s p) (butlast relpath)))"
  by pat_completeness auto
termination
  by (relation "measure (\<lambda>(s, relpath). length relpath)") auto

declare discard_chain.simps [simp del]

text \<open>The prefix length of a new node in the chain: \<open>len = cnt - depth\<close>, capped or decremented.\<close>

definition chain_len :: "u8 \<Rightarrow> u8 \<Rightarrow> u8" where
  "chain_len cnt depth = (if of_nat NSD_MAX_PREFIX < cnt - depth then of_nat NSD_MAX_PREFIX
                          else cnt - depth - 1)"

lemma chain_len_step:
  "depth < cnt \<Longrightarrow> unat cnt - unat (depth + (1 + chain_len cnt depth)) < unat cnt - unat depth"
  unfolding chain_len_def NSD_MAX_PREFIX_def by (simp split: if_splits) unat_arith

text \<open>The loop \<open>while (depth < cnt)\<close> of the leaf split, with its rollback.\<close>

function split_leaf_chain ::
  "bool \<Rightarrow> state \<Rightarrow> path \<Rightarrow> u8 list \<Rightarrow> u8 \<Rightarrow> u8 \<Rightarrow> fault + nsd_retcode \<times> state \<times> path \<times> u8" where
  "split_leaf_chain sse2 s relpath key depth cnt =
     (if depth < cnt then
        (case alloc_node s nsd_node4 of
           (None, s1) \<Rightarrow>
             fbind (discard_chain s1 relpath) (\<lambda>s2. Inr (nsd_no_memory, s2, [], depth))
         | (Some b, s1) \<Rightarrow>
             (let len = chain_len cnt depth in
              fbind
                (if 0 < len then
                   fbind (memcpy (prefix_arr (zeroed_node nsd_node4)) key (1 + unat depth) (unat len))
                     (\<lambda>pre. Inr (zeroed_node nsd_node4\<lparr>prefix_arr := pre, prefix_len := len\<rparr>))
                 else Inr (zeroed_node nsd_node4))
                (\<lambda>node.
              fbind
                (if relpath = [] then Inr (Local_slot, (set_node s1 b node)\<lparr>dummy := Node_at b\<rparr>)
                 else
                   fbind (arr_get key (unat depth)) (\<lambda>k.
                   add_child sse2 (set_node s1 b node) (snd (last relpath)) k (Node_at b)))
                (\<lambda>(childref, s2).
              fbind (push relpath (depth, childref)) (\<lambda>relpath'.
              split_leaf_chain sse2 s2 relpath' key (depth + (1 + len)) cnt)))))
      else Inr (nsd_ok, s, relpath, depth))"
  by pat_completeness auto
termination
  by (relation "measure (\<lambda>(sse2, s, relpath, key, depth, cnt). unat cnt - unat depth)")
     (auto dest: chain_len_step)

declare split_leaf_chain.simps [simp del]

text \<open>
  The leaf split: the chain, then "unlink leaf", "merge paths" and "link leaf". The result
  carries the return code (\<open>nsd_no_memory\<close> when the function returns from inside the
  chain loop), the memory, the caller's path and \<open>depth\<close>.
\<close>

definition split_leaf ::
  "bool \<Rightarrow> state \<Rightarrow> path \<Rightarrow> u8 list \<Rightarrow> slot \<Rightarrow> ptr \<Rightarrow> nsd_leaf \<Rightarrow> u8 \<Rightarrow>
   fault + nsd_retcode \<times> state \<times> path \<times> u8" where
  "split_leaf sse2 s path key noderef leaf lf cnt =
     fbind (top_level path) (\<lambda>(depth0, _).
     fbind (split_leaf_chain sse2 s [] key depth0 cnt) (\<lambda>(rc, s1, relpath, depth).
     if rc = nsd_no_memory then Inr (nsd_no_memory, s1, path, depth)
     else
       fbind (cassert (depth = cnt)) (\<lambda>_.
       fbind (arr_get relpath 0) (\<lambda>(_, r0).
       fbind (load s1 r0) (\<lambda>p0.
       fbind (store s1 noderef p0) (\<lambda>s2.
       fbind
         (if 0 < length relpath - 1 then
            fbind (cassert (length path \<le> NSD_MAX_HEIGHT - (length relpath - 1))) (\<lambda>_.
            Inr (path @ tl relpath))
          else Inr path)
         (\<lambda>path'.
       fbind (top_level path') (\<lambda>(_, tip).
       fbind (arr_get (leaf_key lf) (unat depth)) (\<lambda>k.
       fbind (add_child sse2 s2 tip k leaf) (\<lambda>(_, s3).
       Inr (nsd_ok, s3, path', depth)))))))))))"

text \<open>The node split, up to and including \<open>*noderef = node\<close>.\<close>

definition split_node ::
  "bool \<Rightarrow> state \<Rightarrow> u8 \<Rightarrow> u8 \<Rightarrow> slot \<Rightarrow> ptr \<Rightarrow> u8 \<Rightarrow> fault + nsd_retcode \<times> state" where
  "split_node sse2 s key_len depth noderef p cnt =
     fbind (node_at s p) (\<lambda>(a, n).
     fbind (cassert (cnt < key_len - depth)) (\<lambda>_.
     fbind (cassert (cnt < prefix_len n)) (\<lambda>_.
     case alloc_node s nsd_node4 of
       (None, s1) \<Rightarrow> Inr (nsd_no_memory, s1)
     | (Some b, s1) \<Rightarrow>
         fbind (memcpy (prefix_arr (zeroed_node nsd_node4)) (prefix_arr n) 0 (unat cnt)) (\<lambda>pre.
         fbind (arr_get (prefix_arr n) (unat cnt)) (\<lambda>k.
         fbind (add_child sse2
                  ((set_node s1 b (zeroed_node nsd_node4\<lparr>prefix_len := cnt, prefix_arr := pre\<rparr>))
                     \<lparr>dummy := Node_at b\<rparr>)
                  Local_slot k p) (\<lambda>(_, s2).
         fbind (node_at s2 p) (\<lambda>(a', n').
         fbind
           (if prefix_len n' - (1 + cnt) \<noteq> 0 then
              memmove (prefix_arr n') 0 (1 + unat cnt) (unat (prefix_len n' - (1 + cnt)))
            else Inr (replicate (length (prefix_arr n')) 0))
           (\<lambda>pre'.
         fbind (store (set_node s2 a' (n'\<lparr>prefix_len := prefix_len n' - (1 + cnt),
                                             prefix_arr := pre'\<rparr>))
                  noderef (dummy s2)) (\<lambda>s3.
         Inr (nsd_ok, s3))))))))))"

text \<open>The leaf insertion at an inner node without a child for \<open>key[depth]\<close>.\<close>

definition insert_leaf ::
  "bool \<Rightarrow> state \<Rightarrow> path \<Rightarrow> u8 list \<Rightarrow> u8 \<Rightarrow> slot \<Rightarrow> u8 \<Rightarrow> fault + nsd_retcode \<times> state \<times> path" where
  "insert_leaf sse2 s path key key_len noderef depth =
     fbind (make_leaf s key key_len) (\<lambda>(r, s1).
     case r of
       None \<Rightarrow> Inr (nsd_no_memory, s1, path)
     | Some l \<Rightarrow>
         fbind (arr_get key (unat depth)) (\<lambda>k.
         fbind (add_child sse2 s1 noderef k (Leaf_at l)) (\<lambda>(childref, s2).
         if childref = Null_slot then Inr (nsd_no_memory, free_node s2 (Leaf_at l), path)
         else
           fbind (push path (depth, childref)) (\<lambda>path'.
           Inr (nsd_ok, s2, path')))))"

text \<open>The tail of the loop body: \<open>find_child\<close>, then descend or insert the leaf.\<close>

definition descend_or_insert ::
  "bool \<Rightarrow> state \<Rightarrow> path \<Rightarrow> u8 list \<Rightarrow> u8 \<Rightarrow> slot \<Rightarrow> u8 \<Rightarrow>
   fault + (nsd_retcode \<times> state \<times> path, u8 \<times> state \<times> path) step" where
  "descend_or_insert sse2 s path key key_len noderef depth =
     fbind (load s noderef) (\<lambda>p.
     fbind (arr_get key (unat depth)) (\<lambda>k.
     fbind (find_child sse2 s p k) (\<lambda>childref.
     if childref \<noteq> Null_slot then
       fbind (push path (depth, childref)) (\<lambda>path'.
       Inr (Continue (depth + 1, s, path')))
     else
       fbind (insert_leaf sse2 s path key key_len noderef depth) (\<lambda>(rc, s1, path').
       Inr (if rc = nsd_ok then Continue (key_len, s1, path') else Return (rc, s1, path'))))))"

definition make_path_iter ::
  "bool \<Rightarrow> state \<Rightarrow> path \<Rightarrow> u8 list \<Rightarrow> u8 \<Rightarrow> u8 \<Rightarrow>
   fault + (nsd_retcode \<times> state \<times> path, u8 \<times> state \<times> path) step" where
  "make_path_iter sse2 s path key key_len depth =
     fbind (top_level path) (\<lambda>(_, noderef).
     fbind (load s noderef) (\<lambda>p.
     case p of
       Leaf_at _ \<Rightarrow>
         fbind (leaf_at s p) (\<lambda>(_, lf).
         fbind (cassert (leaf_key_len lf \<le> key_len)) (\<lambda>_.
         fbind (compare_keys key key_len (leaf_key lf) (leaf_key_len lf)) (\<lambda>cnt.
         fbind (cassert (depth \<le> cnt)) (\<lambda>_.
         if cnt = key_len then
           fbind (cassert (key_len = leaf_key_len lf)) (\<lambda>_. Inr (Return (nsd_ok, s, path)))
         else
           fbind (cassert (cnt < key_len)) (\<lambda>_.
           fbind (cassert (cnt < leaf_key_len lf)) (\<lambda>_.
           fbind (split_leaf sse2 s path key noderef p lf cnt) (\<lambda>(rc, s1, path', depth').
           if rc = nsd_ok then descend_or_insert sse2 s1 path' key key_len noderef depth'
           else Inr (Return (rc, s1, path')))))))))
     | _ \<Rightarrow>
         fbind (node_at s p) (\<lambda>(_, n).
         if prefix_len n \<noteq> 0 then
           fbind (compare_keys (drop (unat depth) key) (key_len - depth)
                    (prefix_arr n) (prefix_len n)) (\<lambda>cnt.
           fbind (top_level path) (\<lambda>(d, _).
           fbind (cassert (d = depth - 1)) (\<lambda>_.
           fbind
             (if cnt \<noteq> prefix_len n then split_node sse2 s key_len depth noderef p cnt
              else Inr (nsd_ok, s))
             (\<lambda>(rc, s1).
           if rc = nsd_ok then descend_or_insert sse2 s1 path key key_len noderef (depth + cnt)
           else Inr (Return (rc, s1, path))))))
         else descend_or_insert sse2 s path key key_len noderef depth)))"

partial_function (option) make_path_loop ::
  "bool \<Rightarrow> state \<Rightarrow> path \<Rightarrow> u8 list \<Rightarrow> u8 \<Rightarrow> u8 \<Rightarrow> (fault + nsd_retcode \<times> state \<times> path) option" where
  "make_path_loop sse2 s path key key_len depth =
     (if depth < key_len then
        (case make_path_iter sse2 s path key key_len depth of
           Inl e \<Rightarrow> Some (Inl e)
         | Inr (Return r) \<Rightarrow> Some (Inr r)
         | Inr (Continue (depth', s', path')) \<Rightarrow> make_path_loop sse2 s' path' key key_len depth')
      else Some (Inr (nsd_ok, s, path)))"

declare make_path_loop.simps [code]

definition nsd_make_path ::
  "bool \<Rightarrow> state \<Rightarrow> path \<Rightarrow> u8 list \<Rightarrow> u8 \<Rightarrow> (fault + nsd_retcode \<times> state \<times> path) option" where
  "nsd_make_path sse2 s path key key_len =
     (case path_entry path key_len of
        Inl e \<Rightarrow> Some (Inl e)
      | Inr (path', depth) \<Rightarrow> make_path_loop sse2 s path' key key_len depth)"

text \<open>The empty tree of main.c: the root is a zeroed \<open>nsd_node4_t\<close>.\<close>

definition empty_tree :: "bool list \<Rightarrow> state" where
  "empty_tree bs =
     \<lparr>heap = [Some (Inner (zeroed_node nsd_node4))], root = Node_at 0, dummy = Null, allocs = bs\<rparr>"

section \<open>main.c: the driver\<close>

text \<open>
  \<open>put_key\<close> calls \<open>nsd_make_path\<close> on a path with \<open>height = 0\<close>; the driver does so for
  every key in turn. The result lists the return codes and gives the memory after the
  last call. \<open>get_key\<close> calls \<open>nsd_find_path\<close> on a path with \<open>height = 0\<close>.
\<close>

fun put_keys :: "bool \<Rightarrow> state \<Rightarrow> u8 list list \<Rightarrow> (fault + nsd_retcode list \<times> state) option" where
  "put_keys sse2 s [] = Some (Inr ([], s))"
| "put_keys sse2 s (k # ks) =
     (case nsd_make_path sse2 s [] k (of_nat (length k)) of
        None \<Rightarrow> None
      | Some (Inl e) \<Rightarrow> Some (Inl e)
      | Some (Inr (rc, s', p)) \<Rightarrow>
          (case put_keys sse2 s' ks of
             None \<Rightarrow> None
           | Some (Inl e) \<Rightarrow> Some (Inl e)
           | Some (Inr (rcs, s'')) \<Rightarrow> Some (Inr (rc # rcs, s''))))"

definition get_key :: "bool \<Rightarrow> state \<Rightarrow> u8 list \<Rightarrow> (fault + nsd_retcode) option" where
  "get_key sse2 s k = map_option (map_sum id fst) (nsd_find_path sse2 s [] k (of_nat (length k)))"

text \<open>The bindings of a node, as \<open>find_child\<close> sees them: the child a key octet leads to.\<close>

definition child_of :: "bool \<Rightarrow> state \<Rightarrow> ptr \<Rightarrow> u8 \<Rightarrow> fault + ptr" where
  "child_of sse2 s node key =
     fbind (find_child sse2 s node key) (\<lambda>r. if r = Null_slot then Inr Null else load s r)"

text \<open>The keys of a node with a sorted key array, over \<open>[0..width)\<close>.\<close>

definition keys_ascending :: "nsd_node \<Rightarrow> bool" where
  "keys_ascending n = sorted_wrt (<) (take (unat (width n)) (keys n))"

text \<open>Two concrete memories: an \<open>nsd_node38_t\<close> root whose only child sits under the
  key octet of the digit 9, and an empty \<open>nsd_node256_t\<close> root.\<close>

definition node38_with_9 :: state where
  "node38_with_9 =
     \<lparr>heap = [Some (Inner ((zeroed_node nsd_node38)
                \<lparr>width := 1, children := (children (zeroed_node nsd_node38))[11 := Leaf_at 7]\<rparr>))],
      root = Node_at 0, dummy = Null, allocs = []\<rparr>"

definition empty_node256 :: state where
  "empty_node256 =
     \<lparr>heap = [Some (Inner (zeroed_node nsd_node256))], root = Node_at 0, dummy = Null, allocs = []\<rparr>"

section \<open>Notions used in the statements about allocation failure\<close>

text \<open>
  The loop \<open>while (depth < key_len)\<close> of \<open>nsd_make_path\<close>, cut after \<open>n\<close> iterations
  that ran to the end of the loop body: \<open>depth\<close>, the memory and the path at the entry of
  the iteration that follows them. \<open>None\<close> when the loop ends or returns before.
\<close>

fun make_path_iters ::
  "nat \<Rightarrow> bool \<Rightarrow> state \<Rightarrow> path \<Rightarrow> u8 list \<Rightarrow> u8 \<Rightarrow> u8 \<Rightarrow> (u8 \<times> state \<times> path) option" where
  "make_path_iters 0 sse2 s path key key_len depth = Some (depth, s, path)"
| "make_path_iters (Suc n) sse2 s path key key_len depth =
     (if depth < key_len then
        (case make_path_iter sse2 s path key key_len depth of
           Inr (Continue (depth', s', path')) \<Rightarrow> make_path_iters n sse2 s' path' key key_len depth'
         | _ \<Rightarrow> None)
      else None)"

text \<open>
  \<open>same_tree s s'\<close>: the root pointer and every cell of \<open>s\<close> are unchanged in \<open>s'\<close>, and
  every cell \<open>s'\<close> has in addition is freed.
\<close>

definition same_tree :: "state \<Rightarrow> state \<Rightarrow> bool" where
  "same_tree s s' \<longleftrightarrow> root s' = root s \<and> (\<exists>k. heap s' = heap s @ replicate k None)"

text \<open>
  The invariant of the chain loop in the leaf split, for a chain that started at heap
  length \<open>l0\<close>: level \<open>i\<close> of \<open>relpath\<close> addresses the slot that holds chain node \<open>i\<close>
  (cell \<open>l0 + i\<close>), and that slot is the local variable or lies in an earlier chain node;
  the chain tip is a zeroed \<open>nsd_node4_t\<close> without children.
\<close>

definition chain_ok :: "nat \<Rightarrow> state \<Rightarrow> path \<Rightarrow> bool" where
  "chain_ok l0 s relpath \<longleftrightarrow>
     (\<forall>i < length relpath.
        load s (snd (relpath ! i)) = Inr (Node_at (l0 + i)) \<and>
        (snd (relpath ! i) = Local_slot \<or>
         (\<exists>c j. snd (relpath ! i) = Child_slot c j \<and> l0 \<le> c \<and> c < l0 + i)))"

definition chain_inv :: "state \<Rightarrow> state \<Rightarrow> path \<Rightarrow> bool" where
  "chain_inv s0 s relpath \<longleftrightarrow>
     root s = root s0 \<and> length (heap s) = length (heap s0) + length relpath \<and>
     take (length (heap s0)) (heap s) = heap s0 \<and>
     chain_ok (length (heap s0)) s relpath \<and>
     (relpath = [] \<or>
      (\<exists>n. heap s ! (length (heap s) - 1) = Some (Inner n) \<and> ntype n = nsd_node4 \<and>
           width n = 0 \<and> length (keys n) = 4 \<and> length (children n) = 4))"

text \<open>
  The memory after one \<open>put_key\<close> into the empty tree: the root with the leaf of key \<open>k\<close>
  as its only child.
\<close>

definition one_leaf_tree :: "u8 list \<Rightarrow> bool list \<Rightarrow> state" where
  "one_leaf_tree k bs =
     \<lparr>heap = [Some (Inner ((zeroed_node nsd_node4)
                \<lparr>width := 1, keys := [hd k, 0, 0, 0], children := [Leaf_at 1, Null, Null, Null]\<rparr>)),
              Some (Leaf \<lparr>leaf_data = 0, leaf_key_len = of_nat (length k), leaf_key = k\<rparr>)],
      root = Node_at 0, dummy = Null, allocs = bs\<rparr>"

section \<open>Properties of the vector search primitives\<close>

text \<open>
  Claim C5 (\<open>findeq(c, v, n)\<close> returns the 1-based index of the first \<open>i < n\<close> with
  \<open>v[i] = c\<close> and 0 when there is none, for the SIMD and the scalar implementation alike)
  fails on the code. The scalar loop never reads \<open>max\<close>: with \<open>c = 0\<close>,
  \<open>v = [1, 0, \<dots>]\<close> and \<open>n = 1\<close> it returns 2 for a lane outside the current width. The
  SSE2 and AVX2 variants return \<open>__builtin_ctz\<close> of the match bitmap, a 0-based index: a
  match in lane 0 yields 0, the value reserved for "not found", and no match at all hands
  0 to \<open>__builtin_ctz\<close>, which is undefined.
\<close>

theorem C5_findeq_diverges:
  "nsd_v16_findeq_u8_scalar 0 (1 # replicate 15 0) 1 = 2 \<and>
   findeq_spec 0 (1 # replicate 15 0) 1 = 0 \<and>
   nsd_v16_findeq_u8_sse2 5 (5 # replicate 15 0) 1 = Inr 0 \<and>
   findeq_spec 5 (5 # replicate 15 0) 1 = 1 \<and>
   nsd_v32_findeq_u8 5 (5 # replicate 31 0) 1 = Inr 0 \<and>
   findeq_spec 5 (5 # replicate 31 0) 1 = 1 \<and>
   nsd_v16_findeq_u8_sse2 5 (replicate 16 0) 16 = Inl Undefined_ctz \<and>
   findeq_spec 5 (replicate 16 0) 16 = 0"
  by code_simp

section \<open>Properties of the key transform\<close>

lemma and_c0_iff: "(w :: u8) AND 0xc0 = 0 \<longleftrightarrow> w < 64"
proof -
  have m: "(0xc0 :: u8) = NOT (mask 6)" by (simp add: mask_eq_exp_minus_1)
  have "w AND NOT (mask 6) = 0 \<longleftrightarrow> w AND mask 6 = w"
  proof
    assume a: "w AND NOT (mask 6) = 0"
    have "w = w AND (mask 6 OR NOT (mask 6))" by simp
    also have "\<dots> = (w AND mask 6) OR (w AND NOT (mask 6))" by (simp only: bit.conj_disj_distrib)
    finally show "w AND mask 6 = w" using a by simp
  next
    assume a: "w AND mask 6 = w"
    have "w AND NOT (mask 6) = (w AND mask 6) AND NOT (mask 6)" using a by simp
    also have "\<dots> = 0" by (simp only: and.assoc bit.conj_cancel_right and.right_neutral and_zero_eq)
    finally show "w AND NOT (mask 6) = 0" .
  qed
  also have "\<dots> \<longleftrightarrow> w < 64" by (simp add: mask_eq_iff word_less_alt)
  finally show ?thesis using m by simp
qed

lemma take_upd_last: "0 < c \<Longrightarrow> c \<le> length key \<Longrightarrow> take c (key[c - 1 := v]) = take (c - 1) key @ [v]"
proof -
  assume "0 < c" "c \<le> length key"
  then obtain k where k: "c = Suc k" "k < length key" by (cases c) auto
  then show ?thesis by (simp add: take_Suc_conv_app_nth)
qed

lemma xlat_label_run:
  "1 \<le> c \<Longrightarrow> c \<le> len \<Longrightarrow> len \<le> length name \<Longrightarrow> len \<le> length key + 1 \<Longrightarrow>
   xlat_label name c len key =
     Inr (len, take (c - 1) key @ map xlat (take (len - c) (drop c name)) @ drop (len - 1) key)"
proof (induction name c len key rule: xlat_label.induct)
  case (1 name cnt len key)
  show ?case
  proof (cases "cnt < len")
    case False
    with "1.prems" have "cnt = len" by simp
    then show ?thesis using "1.prems" by (subst xlat_label.simps) simp
  next
    case True
    have n: "\<not> length name \<le> cnt" using True "1.prems" by simp
    have st: "ptr_store key cnt (xlat (name ! cnt)) = Inr (key[cnt - 1 := xlat (name ! cnt)])"
      using True "1.prems" by (simp add: ptr_store_def)
    from "1.IH" [OF True n st] "1.prems" True
    have ih: "xlat_label name (cnt + 1) len (key[cnt - 1 := xlat (name ! cnt)]) =
      Inr (len, take cnt (key[cnt - 1 := xlat (name ! cnt)]) @
         map xlat (take (len - (cnt + 1)) (drop (cnt + 1) name)) @
         drop (len - 1) (key[cnt - 1 := xlat (name ! cnt)]))"
      by simp
    have a: "take cnt (key[cnt - 1 := xlat (name ! cnt)]) = take (cnt - 1) key @ [xlat (name ! cnt)]"
      using True "1.prems" by (intro take_upd_last) auto
    have b: "drop (len - 1) (key[cnt - 1 := xlat (name ! cnt)]) = drop (len - 1) key"
      using True "1.prems" by simp
    have d: "len - cnt = Suc (len - (cnt + 1))" using True by simp
    have e: "drop cnt name = name ! cnt # drop (cnt + 1) name"
      using n by (simp add: Cons_nth_drop_Suc)
    have c: "take (len - cnt) (drop cnt name) = name ! cnt # take (len - (cnt + 1)) (drop (cnt + 1) name)"
      by (subst d, subst e) simp
    have "xlat_label name cnt len key = xlat_label name (cnt + 1) len (key[cnt - 1 := xlat (name ! cnt)])"
      by (subst xlat_label.simps) (simp add: True n st)
    also note ih
    finally show ?thesis by (simp only: a b c) simp
  qed
qed

lemma of_nat_len_u8:
  fixes n :: nat
  assumes "n < 256"
  shows "unat (of_nat n :: u8) = n" and "(of_nat n :: u8) = 0 \<longleftrightarrow> n = 0"
    and "(of_nat n :: u8) AND 0xc0 = 0 \<longleftrightarrow> n \<le> 63"
proof -
  show u: "unat (of_nat n :: u8) = n" using assms by (simp add: unat_of_nat)
  show "(of_nat n :: u8) = 0 \<longleftrightarrow> n = 0"
  proof
    assume "(of_nat n :: u8) = 0"
    then have "unat (of_nat n :: u8) = 0" by simp
    with u show "n = 0" by simp
  next
    assume "n = 0"
    then show "(of_nat n :: u8) = 0" by simp
  qed
  have "(of_nat n :: u8) < 64 \<longleftrightarrow> unat (of_nat n :: u8) < 64"
    by (simp add: word_less_nat_alt)
  also have "\<dots> \<longleftrightarrow> n \<le> 63" by (simp only: u) arith
  finally have "(of_nat n :: u8) < 64 \<longleftrightarrow> n \<le> 63" .
  then show "(of_nat n :: u8) AND 0xc0 = 0 \<longleftrightarrow> n \<le> 63"
    by (simp only: and_c0_iff)
qed

lemma make_key_step:
  assumes l: "0 < length l" "length l \<le> 63" and b: "length pre + length l + 1 \<le> 255"
    and k: "255 \<le> length key"
  shows "make_key_loop (pre @ (of_nat (length l) # l) @ rest) (length pre) (length pre) key =
         make_key_loop (pre @ (of_nat (length l) # l) @ rest) (length pre + length l + 1)
           (length pre + length l + 1)
           (take (length pre) key @ map xlat l @ 0 # drop (length pre + length l + 1) key)"
proof -
  let ?name = "pre @ (of_nat (length l) # l) @ rest"
  let ?p = "length pre"
  let ?len = "?p + length l + 1"
  have n256: "length l < 256" using l by simp
  have hd: "?name ! ?p = of_nat (length l)" by (simp add: nth_append)
  have c1: "\<not> length ?name \<le> ?p" by simp
  have c2: "?name ! ?p \<noteq> 0" using of_nat_len_u8(2) [OF n256] l hd by simp
  have c3: "\<not> (?name ! ?p AND 0xc0 \<noteq> 0 \<or> 0xff < ?p + (unat (?name ! ?p) + 1))"
    using of_nat_len_u8(1,3) [OF n256] l b hd by simp
  have len: "?p + (unat (?name ! ?p) + 1) = ?len" using of_nat_len_u8(1) [OF n256] hd by simp
  have dr: "take (?len - (?p + 1)) (drop (?p + 1) ?name) = l" by simp
  have xl: "xlat_label ?name (?p + 1) ?len key =
      Inr (?len, take ?p key @ map xlat l @ drop (?len - 1) key)"
    using xlat_label_run [of "?p + 1" ?len ?name key] k b dr by simp
  let ?key1 = "take ?p key @ map xlat l @ drop (?len - 1) key"
  have l1: "length ?key1 = length key" using k b by simp
  have st: "ptr_store ?key1 ?len 0 = Inr (?key1[?len - 1 := 0])"
    using l1 k b by (simp add: ptr_store_def)
  have d: "drop (?len - 1) key = key ! (?len - 1) # drop ?len key"
    using k b by (simp add: Cons_nth_drop_Suc)
  have up: "?key1[?len - 1 := 0] = take ?p key @ map xlat l @ 0 # drop ?len key"
    using k b by (subst d) (simp add: list_update_append)
  show ?thesis
    apply (subst make_key_loop.simps)
    apply (simp only: c1 c2 c3 if_False)
    apply (simp only: len xl st up sum.case prod.case)
    done
qed

lemma labels_wire_Cons: "labels_wire (l # ls) = (of_nat (length l) # l) @ labels_wire ls"
  by (simp add: labels_wire_def)

lemma labels_wire_Nil: "labels_wire [] = []"
  by (simp add: labels_wire_def)

lemma wire_labels_wire: "wire ls = labels_wire ls @ [0]"
  by (simp add: wire_def labels_wire_def)

lemma label_keys_Cons: "label_keys (l # ls) = map xlat l @ 0 # label_keys ls"
  by (simp add: label_keys_def)

lemma length_label_keys: "length (label_keys ls) = length (labels_wire ls)"
  by (induction ls) (simp_all add: label_keys_def labels_wire_def)

text \<open>The loop over a run of labels that all pass the test at the head of the loop body.\<close>

lemma make_key_labels:
  assumes "\<forall>l \<in> set ls. 0 < length l \<and> length l \<le> 63"
    and "length pre + length (labels_wire ls) \<le> 255" and "255 \<le> length key"
  shows "make_key_loop (pre @ labels_wire ls @ rest) (length pre) (length pre) key =
         make_key_loop (pre @ labels_wire ls @ rest)
           (length pre + length (labels_wire ls)) (length pre + length (labels_wire ls))
           (take (length pre) key @ label_keys ls @ drop (length pre + length (labels_wire ls)) key)"
  using assms
proof (induction ls arbitrary: pre key)
  case Nil
  then show ?case by (simp add: labels_wire_Nil label_keys_def)
next
  case (Cons l ls)
  let ?pre = "pre @ of_nat (length l) # l"
  let ?key = "take (length pre) key @ map xlat l @ 0 # drop (length pre + length l + 1) key"
  have l: "0 < length l" "length l \<le> 63" using Cons.prems by auto
  have lw: "length (labels_wire (l # ls)) = length l + 1 + length (labels_wire ls)"
    by (simp add: labels_wire_Cons)
  have b: "length pre + length l + 1 \<le> 255" using Cons.prems(2) lw by linarith
  have k: "255 \<le> length key" by fact
  have lp: "length ?pre = length pre + length l + 1" by simp
  have lk: "length ?key = length key" using k b by simp
  have step: "make_key_loop (pre @ labels_wire (l # ls) @ rest) (length pre) (length pre) key =
     make_key_loop (?pre @ labels_wire ls @ rest) (length ?pre) (length ?pre) ?key"
    using make_key_step [OF l b k, of "labels_wire ls @ rest"] by (simp add: labels_wire_Cons)
  have 1: "\<forall>l \<in> set ls. 0 < length l \<and> length l \<le> 63" using Cons.prems by simp
  have 2: "length ?pre + length (labels_wire ls) \<le> 255" using Cons.prems(2) lw by simp
  have 3: "255 \<le> length ?key" using lk k by simp
  have le: "length ?pre + length (labels_wire ls) = length pre + length (labels_wire (l # ls))"
    using lw by simp
  have tk: "take (length ?pre) ?key = take (length pre) key @ map xlat l @ [0]"
    using k b by simp
  have dk: "drop (length ?pre + length (labels_wire ls)) ?key =
            drop (length pre + length (labels_wire (l # ls))) key"
    using k b lw by (simp add: ac_simps)
  have nm: "?pre @ labels_wire ls @ rest = pre @ labels_wire (l # ls) @ rest"
    by (simp add: labels_wire_Cons)
  have "make_key_loop (?pre @ labels_wire ls @ rest) (length ?pre) (length ?pre) ?key =
        make_key_loop (?pre @ labels_wire ls @ rest)
          (length ?pre + length (labels_wire ls)) (length ?pre + length (labels_wire ls))
          (take (length ?pre) ?key @ label_keys ls @ drop (length ?pre + length (labels_wire ls)) ?key)"
    by (rule Cons.IH [OF 1 2 3])
  also have "\<dots> = make_key_loop (pre @ labels_wire (l # ls) @ rest)
          (length pre + length (labels_wire (l # ls))) (length pre + length (labels_wire (l # ls)))
          (take (length pre) key @ label_keys (l # ls) @ drop (length pre + length (labels_wire (l # ls))) key)"
    by (simp only: dk tk nm) (simp only: le label_keys_Cons append_assoc append_Cons append_Nil)
  finally show ?case using step by simp
qed

text \<open>
  The octet at which the loop stops, after labels that pass the test: the root label
  (the closing store follows), or an octet that fails the test.
\<close>

lemma make_key_root:
  assumes "\<forall>l \<in> set ls. 0 < length l \<and> length l \<le> 63"
    and "length (labels_wire ls) < length key" and "length (labels_wire ls) \<le> 255"
    and "255 \<le> length key"
  shows "nsd_make_key key (labels_wire ls @ 0 # rest) =
           Inr (of_nat (length (labels_wire ls) + 1),
                label_keys ls @ 0 # drop (length (labels_wire ls) + 1) key)"
proof -
  let ?p = "length (labels_wire ls)"
  let ?name = "labels_wire ls @ 0 # rest"
  let ?key = "label_keys ls @ drop ?p key"
  have run: "make_key_loop ?name 0 0 key = make_key_loop ?name ?p ?p ?key"
    using make_key_labels [of ls "[]" key "0 # rest"] assms by simp
  have c1: "\<not> length ?name \<le> ?p" by simp
  have c2: "?name ! ?p = 0" by (simp add: nth_append)
  have lk: "length ?key = length key" using assms by (simp add: length_label_keys)
  have st: "ptr_store ?key (?p + 1) 0 = Inr (?key[?p := 0])"
    using assms lk by (simp add: ptr_store_def)
  have d: "drop ?p key = key ! ?p # drop (?p + 1) key"
    using assms by (simp add: Cons_nth_drop_Suc)
  have up: "?key[?p := 0] = label_keys ls @ 0 # drop (?p + 1) key"
    by (subst d) (simp add: list_update_append length_label_keys)
  have "make_key_loop ?name ?p ?p ?key = Inr (of_nat (?p + 1), ?key[?p := 0])"
    apply (subst make_key_loop.simps)
    apply (simp only: c1 c2 if_False if_True st sum.case simp_thms)
    done
  then show ?thesis using run up by (simp add: nsd_make_key_def)
qed

lemma make_key_root_overrun:
  assumes "\<forall>l \<in> set ls. 0 < length l \<and> length l \<le> 63"
    and "length (labels_wire ls) = 255" and "length key = 255"
  shows "nsd_make_key key (labels_wire ls @ 0 # rest) = Inl Out_of_bounds"
proof -
  let ?p = "length (labels_wire ls)"
  let ?name = "labels_wire ls @ 0 # rest"
  let ?key = "label_keys ls @ drop ?p key"
  have run: "make_key_loop ?name 0 0 key = make_key_loop ?name ?p ?p ?key"
    using make_key_labels [of ls "[]" key "0 # rest"] assms by simp
  have c1: "\<not> length ?name \<le> ?p" by simp
  have c2: "?name ! ?p = 0" by (simp add: nth_append)
  have lk: "length ?key = 255" using assms by (simp add: length_label_keys)
  have st: "ptr_store ?key (?p + 1) 0 = Inl Out_of_bounds"
    using assms lk by (simp add: ptr_store_def)
  have "make_key_loop ?name ?p ?p ?key = Inl Out_of_bounds"
    apply (subst make_key_loop.simps)
    apply (simp only: c1 c2 if_False if_True st sum.case simp_thms)
    done
  then show ?thesis using run by (simp add: nsd_make_key_def)
qed

lemma make_key_refuse:
  assumes "\<forall>l \<in> set ls. 0 < length l \<and> length l \<le> 63"
    and "length (labels_wire ls) \<le> 255" and "255 \<le> length key"
    and "b \<noteq> 0" and "b AND 0xc0 \<noteq> 0 \<or> 255 < length (labels_wire ls) + unat b + 1"
  shows "nsd_make_key key (labels_wire ls @ b # rest) =
           Inr (0, label_keys ls @ drop (length (labels_wire ls)) key)"
proof -
  let ?p = "length (labels_wire ls)"
  let ?name = "labels_wire ls @ b # rest"
  let ?key = "label_keys ls @ drop ?p key"
  have run: "make_key_loop ?name 0 0 key = make_key_loop ?name ?p ?p ?key"
    using make_key_labels [of ls "[]" key "b # rest"] assms by simp
  have c1: "\<not> length ?name \<le> ?p" by simp
  have hd: "?name ! ?p = b" by (simp add: nth_append)
  have c2: "?name ! ?p \<noteq> 0" using hd assms by simp
  have c3: "?name ! ?p AND 0xc0 \<noteq> 0 \<or> 0xff < ?p + (unat (?name ! ?p) + 1)"
    using hd assms(5) by auto
  have "make_key_loop ?name ?p ?p ?key = Inr (0, ?key)"
    apply (subst make_key_loop.simps)
    apply (simp only: c1 c2 if_False)
    apply (simp only: c3 if_True)
    done
  then show ?thesis using run by (simp add: nsd_make_key_def)
qed

lemma xlat_range: "xlat b \<noteq> 0 \<and> xlat b \<le> 0xe6"
  unfolding xlat_def by unat_arith (simp, arith)

lemma sep_prefix:
  "0 \<notin> set a \<Longrightarrow> 0 \<notin> set b \<Longrightarrow> prefix (a @ 0 # x) (b @ 0 # y) \<Longrightarrow> a = b \<and> prefix x y"
proof (induction a arbitrary: b)
  case Nil
  then show ?case by (cases b) auto
next
  case (Cons c a)
  then show ?case by (cases b) auto
qed

lemma key_layout_prefix:
  "\<forall>l \<in> set as. l \<noteq> [] \<and> 0 \<notin> set l \<Longrightarrow> \<forall>l \<in> set bs. l \<noteq> [] \<and> 0 \<notin> set l \<Longrightarrow>
   prefix (key_layout as) (key_layout bs) \<Longrightarrow> as = bs"
proof (induction as arbitrary: bs)
  case Nil
  show ?case
  proof (cases bs)
    case Nil then show ?thesis by simp
  next
    case (Cons b bs')
    with Nil.prems obtain y c where "b = y # c" "y \<noteq> 0" by (cases b) auto
    with Nil.prems Cons show ?thesis by simp
  qed
next
  case (Cons a as)
  from Cons.prems obtain x c where a: "a = x # c" "x \<noteq> 0" by (cases a) auto
  show ?case
  proof (cases bs)
    case Nil
    with Cons.prems a show ?thesis by simp
  next
    case (Cons b bs')
    from Cons.prems(3) have "prefix (a @ 0 # key_layout as) (b @ 0 # key_layout bs')"
      using Cons by simp
    moreover have "0 \<notin> set a" "0 \<notin> set b" using Cons.prems Cons by auto
    ultimately have "a = b" "prefix (key_layout as) (key_layout bs')"
      using sep_prefix by blast+
    moreover have "as = bs'" using Cons.IH [of bs'] Cons.prems Cons calculation by simp
    ultimately show ?thesis using Cons by simp
  qed
qed

lemma label_keys_layout: "label_keys ls @ [0] = key_layout (map (map xlat) ls)"
  by (induction ls) (simp_all add: label_keys_def)

lemma make_key_valid:
  assumes v: "valid_labels ls" and k: "length key = 255"
  shows "\<exists>r. nsd_make_key key (wire ls @ rest) = Inr r \<and> fst r \<noteq> 0 \<and>
             unat (fst r) = length (wire ls) \<and> key_of r = label_keys ls @ [0]"
proof -
  from v have a: "\<forall>l \<in> set ls. 0 < length l \<and> length l \<le> 63" and b: "length (wire ls) \<le> 255"
    by (auto simp: valid_labels_def)
  have p: "length (labels_wire ls) < 255" using b by (simp add: wire_labels_wire)
  have r: "nsd_make_key key (wire ls @ rest) =
           Inr (of_nat (length (wire ls)),
                label_keys ls @ 0 # drop (length (labels_wire ls) + 1) key)"
    using make_key_root [OF a, of key rest] p k by (simp add: wire_labels_wire)
  have n: "length (wire ls) < 256" using b by simp
  have u: "unat (of_nat (length (wire ls)) :: u8) = length (wire ls)"
    by (rule of_nat_len_u8(1) [OF n])
  have z: "(of_nat (length (wire ls)) :: u8) \<noteq> 0"
    using of_nat_len_u8(2) [OF n] by (simp add: wire_labels_wire)
  have t: "take (length (wire ls)) (label_keys ls @ 0 # drop (length (labels_wire ls) + 1) key) =
           label_keys ls @ [0]"
    by (simp add: wire_labels_wire length_label_keys)
  show ?thesis
    using r t u z by (simp add: key_of_def)
qed

text \<open>
  Claim C3: for every valid wire name (labels of 1 to 63 octets, at most 255 octets in
  all) \<open>nsd_make_key\<close> accepts the name, every octet of the returned key is at most
  \<open>0xE6\<close>, the key is the translated labels each followed by one \<open>0x00\<close> plus the final
  \<open>0x00\<close>, no translated label octet is \<open>0x00\<close>, and the key is not a proper prefix of
  the key returned for any other valid wire name.
\<close>

theorem C3_key_octets_and_prefix_free:
  assumes "valid_labels ls" and "valid_labels ls'" and "length key = 255" and "length key' = 255"
  shows "\<exists>r r'. nsd_make_key key (wire ls @ rest) = Inr r \<and> fst r \<noteq> 0 \<and>
           nsd_make_key key' (wire ls' @ rest') = Inr r' \<and> fst r' \<noteq> 0 \<and>
           (\<forall>b \<in> set (key_of r). b \<le> 0xe6) \<and>
           key_of r = concat (map (\<lambda>l. map xlat l @ [0]) ls) @ [0] \<and>
           (\<forall>l \<in> set ls. 0 \<notin> set (map xlat l)) \<and>
           \<not> strict_prefix (key_of r) (key_of r')"
proof -
  from make_key_valid [OF assms(1,3), of rest] obtain r where
    r: "nsd_make_key key (wire ls @ rest) = Inr r" "fst r \<noteq> 0" "key_of r = label_keys ls @ [0]"
    by blast
  from make_key_valid [OF assms(2,4), of rest'] obtain r' where
    r': "nsd_make_key key' (wire ls' @ rest') = Inr r'" "fst r' \<noteq> 0" "key_of r' = label_keys ls' @ [0]"
    by blast
  have nz: "\<And>ks. \<forall>l \<in> set ks. 0 \<notin> set (map xlat l)"
    using xlat_range by (auto simp: image_iff)
  have oct: "\<forall>b \<in> set (key_of r). b \<le> 0xe6"
    using xlat_range by (auto simp: r(3) label_keys_def)
  have ne: "\<And>ks. valid_labels ks \<Longrightarrow> \<forall>l \<in> set (map (map xlat) ks). l \<noteq> [] \<and> 0 \<notin> set l"
    using nz by (auto simp: valid_labels_def)
  have "\<not> strict_prefix (key_of r) (key_of r')"
  proof
    assume s: "strict_prefix (key_of r) (key_of r')"
    then have "prefix (key_layout (map (map xlat) ls)) (key_layout (map (map xlat) ls'))"
      by (simp add: r(3) r'(3) label_keys_layout strict_prefix_def)
    from key_layout_prefix [OF ne [OF assms(1)] ne [OF assms(2)] this]
    have "key_of r = key_of r'" by (simp add: r(3) r'(3) label_keys_layout)
    with s show False by (simp add: strict_prefix_def)
  qed
  then show ?thesis using r r' oct nz by (auto simp: label_keys_def)
qed

theorem C3_key_octets_and_prefix_free_witness:
  "valid_labels [[0x66, 0x4f, 0x6f]] \<and> valid_labels [[0x62], [0x66, 0x6f, 0x6f]] \<and>
   (\<exists>r r'. nsd_make_key (replicate 255 0) (wire [[0x66, 0x4f, 0x6f]] @ []) = Inr r \<and> fst r \<noteq> 0 \<and>
           nsd_make_key (replicate 255 0) (wire [[0x62], [0x66, 0x6f, 0x6f]] @ []) = Inr r' \<and> fst r' \<noteq> 0 \<and>
           (\<forall>b \<in> set (key_of r). b \<le> 0xe6) \<and>
           key_of r = concat (map (\<lambda>l. map xlat l @ [0]) [[0x66, 0x4f, 0x6f]]) @ [0] \<and>
           (\<forall>l \<in> set [[0x66, 0x4f, 0x6f :: u8]]. 0 \<notin> set (map xlat l)) \<and>
           \<not> strict_prefix (key_of r) (key_of r'))"
proof -
  have a: "valid_labels [[0x66, 0x4f, 0x6f]]" by (simp add: valid_labels_def wire_def)
  have b: "valid_labels [[0x62], [0x66, 0x6f, 0x6f]]" by (simp add: valid_labels_def wire_def)
  have k: "length (replicate 255 (0 :: u8)) = 255" by simp
  from C3_key_octets_and_prefix_free [OF a b k k, of "[]" "[]"] a b show ?thesis by blast
qed

lemma name_shape_from:
  "p \<le> 255 \<Longrightarrow>
   \<exists>ls. (\<forall>l \<in> set ls. 0 < length l \<and> length l \<le> 63) \<and> p + length (labels_wire ls) \<le> 255 \<and>
     ((\<exists>b rest. t = labels_wire ls @ b # rest \<and>
         (b = 0 \<or> b AND 0xc0 \<noteq> 0 \<or> 255 < p + length (labels_wire ls) + unat b + 1)) \<or>
      t = labels_wire ls \<or>
      (\<exists>b body. t = labels_wire ls @ b # body \<and> length body < unat b))"
proof (induction "length t" arbitrary: t p rule: less_induct)
  case less
  show ?case
  proof (cases t)
    case Nil
    then have "t = labels_wire []" by (simp add: labels_wire_Nil)
    with less.prems show ?thesis
      by (intro exI [of _ "[]"]) (simp add: labels_wire_Nil)
  next
    case (Cons b body)
    show ?thesis
    proof (cases "b = 0 \<or> b AND 0xc0 \<noteq> 0 \<or> 255 < p + unat b + 1")
      case True
      with Cons less.prems show ?thesis
        by (intro exI [of _ "[]"]) (simp add: labels_wire_Nil)
    next
      case stop: False
      show ?thesis
      proof (cases "length body < unat b")
        case True
        with Cons less.prems show ?thesis
          by (intro exI [of _ "[]"]) (simp add: labels_wire_Nil)
      next
        case False
        define l where "l = take (unat b) body"
        define t' where "t' = drop (unat b) body"
        have ll: "length l = unat b" using False by (simp add: l_def)
        have b: "of_nat (length l) = b" by (simp add: ll)
        have bd: "body = l @ t'" by (simp add: l_def t'_def)
        have pos: "0 < length l" using stop ll by (simp add: unat_gt_0)
        have b64: "b < 64" using stop and_c0_iff [of b] by simp
        then have le: "length l \<le> 63" using ll by (simp add: word_less_nat_alt)
        have p': "p + length l + 1 \<le> 255" using stop ll by simp
        have sm: "length t' < length t" using Cons bd by simp
        from less.hyps [OF sm p'] obtain ls where
          a: "\<forall>l \<in> set ls. 0 < length l \<and> length l \<le> 63"
          and f: "p + length l + 1 + length (labels_wire ls) \<le> 255"
          and s: "(\<exists>b rest. t' = labels_wire ls @ b # rest \<and>
                     (b = 0 \<or> b AND 0xc0 \<noteq> 0 \<or>
                      255 < p + length l + 1 + length (labels_wire ls) + unat b + 1)) \<or>
                  t' = labels_wire ls \<or>
                  (\<exists>b body. t' = labels_wire ls @ b # body \<and> length body < unat b)"
          by blast
        have t: "t = (of_nat (length l) # l) @ t'" using Cons bd b by simp
        have lw: "length (labels_wire (l # ls)) = length l + 1 + length (labels_wire ls)"
          by (simp add: labels_wire_Cons)
        have a': "\<forall>x \<in> set (l # ls). 0 < length x \<and> length x \<le> 63" using a pos le by simp
        have f': "p + length (labels_wire (l # ls)) \<le> 255" using f lw by simp
        have s': "(\<exists>b rest. t = labels_wire (l # ls) @ b # rest \<and>
                     (b = 0 \<or> b AND 0xc0 \<noteq> 0 \<or>
                      255 < p + length (labels_wire (l # ls)) + unat b + 1)) \<or>
                  t = labels_wire (l # ls) \<or>
                  (\<exists>b body. t = labels_wire (l # ls) @ b # body \<and> length body < unat b)"
          using s unfolding t labels_wire_Cons lw
          by (auto simp: ac_simps)
        from a' f' s' show ?thesis by blast
      qed
    qed
  qed
qed

text \<open>
  Every octet string is accepted labels followed by the octet at which the loop stops,
  unless the string ends before that octet or inside a label (then it holds no name).
\<close>

lemma name_shape:
  "\<exists>ls. (\<forall>l \<in> set ls. 0 < length l \<and> length l \<le> 63) \<and> length (labels_wire ls) \<le> 255 \<and>
     ((\<exists>b rest. name = labels_wire ls @ b # rest \<and>
         (b = 0 \<or> b AND 0xc0 \<noteq> 0 \<or> 255 < length (labels_wire ls) + unat b + 1)) \<or>
      name = labels_wire ls \<or>
      (\<exists>b body. name = labels_wire ls @ b # body \<and> length body < unat b))"
  using name_shape_from [of 0 name] by simp

text \<open>
  The closing store \<open>ptr[++cnt] = 0x00\<close> for a name of 256 octets: the test at the head
  of the loop body counts the labels only, so 255 octets of labels pass it and the store
  goes to \<open>key[255]\<close>, outside an \<open>nsd_key_t\<close>; in a buffer that has that octet the
  value returned is 256 converted to \<open>uint8_t\<close>, which is 0.
\<close>

lemma make_key_closing_store:
  assumes "\<forall>l \<in> set ls. 0 < length l \<and> length l \<le> 63" and "length (labels_wire ls) = 255"
  shows "length key = 255 \<Longrightarrow> nsd_make_key key (labels_wire ls @ 0 # rest) = Inl Out_of_bounds"
    and "256 \<le> length key \<Longrightarrow> \<exists>buf. nsd_make_key key (labels_wire ls @ 0 # rest) = Inr (0, buf)"
proof -
  show "nsd_make_key key (labels_wire ls @ 0 # rest) = Inl Out_of_bounds" if "length key = 255"
    using make_key_root_overrun [OF assms that] .
  show "\<exists>buf. nsd_make_key key (labels_wire ls @ 0 # rest) = Inr (0, buf)" if "256 \<le> length key"
  proof -
    have "(of_nat (255 + 1) :: u8) = 0" by simp
    then show ?thesis
      using make_key_root [OF assms(1), of key rest] assms(2) that by simp
  qed
qed

lemma make_key_256_octets:
  "length (wire [replicate 63 0x61, replicate 63 0x61, replicate 63 0x61, replicate 62 0x61]) = 256 \<and>
   nsd_make_key (replicate 255 0)
     (wire [replicate 63 0x61, replicate 63 0x61, replicate 63 0x61, replicate 62 0x61]) =
     Inl Out_of_bounds"
proof -
  let ?ls = "[replicate 63 0x61, replicate 63 0x61, replicate 63 0x61, replicate 62 0x61] :: u8 list list"
  have a: "\<forall>l \<in> set ?ls. 0 < length l \<and> length l \<le> 63" by simp
  have p: "length (labels_wire ?ls) = 255" by (simp add: labels_wire_def)
  have k: "length (replicate 255 (0 :: u8)) = 255" by simp
  from make_key_closing_store(1) [OF a p k, of "[]"] p show ?thesis
    by (simp only: wire_labels_wire length_append list.size) simp
qed

text \<open>
  Claim C8, amended. As stated (failure exactly when an octet has both top bits set or
  the total length would exceed 255) the claim fails: the test in the code is
  \<open>name[cnt] & 0xc0\<close>, which refuses a length octet with either of the two bits set, so
  a 64-octet label is refused although no octet of the name is a compression pointer.
  What the code does. A name is a run of labels that pass the test at the head of the
  loop body (1 to 63 octets each, at most 255 octets with their length octets), followed
  by the octet \<open>b\<close> at which the loop stops: the root label, a length octet with one of
  its top two bits set (a compression pointer such as \<open>c0 0c\<close>, or a label of more than
  63 octets), or a length octet that takes the length past 255. \<open>nsd_make_key\<close> returns
  a positive length exactly when \<open>b\<close> is the root label and the name has at most 255
  octets; that length is the length of the name, and the key is the translated labels.
  It returns 0 when a length octet has one of its top two bits set or a label takes the
  length past 255.
\<close>

theorem C8_make_key_fails_amended:
  assumes "\<forall>l \<in> set ls. 0 < length l \<and> length l \<le> 63"
    and "length (labels_wire ls) \<le> 255"
    and "b = 0 \<or> b AND 0xc0 \<noteq> 0 \<or> 255 < length (labels_wire ls) + unat b + 1"
    and "length key = 255"
  shows "((\<exists>n buf. nsd_make_key key (labels_wire ls @ b # rest) = Inr (n, buf) \<and> n \<noteq> 0) \<longleftrightarrow>
            \<not> (b AND 0xc0 \<noteq> 0 \<or> 255 < length (labels_wire ls) + unat b + 1)) \<and>
         (b AND 0xc0 \<noteq> 0 \<or> (b \<noteq> 0 \<and> 255 < length (labels_wire ls) + unat b + 1) \<longrightarrow>
            (\<exists>buf. nsd_make_key key (labels_wire ls @ b # rest) = Inr (0, buf))) \<and>
         (\<not> (b AND 0xc0 \<noteq> 0 \<or> 255 < length (labels_wire ls) + unat b + 1) \<longrightarrow>
            (\<exists>n buf. nsd_make_key key (labels_wire ls @ b # rest) = Inr (n, buf) \<and>
                     unat n = length (labels_wire ls) + 1 \<and>
                     key_of (n, buf) = label_keys ls @ [0]))"
proof -
  let ?p = "length (labels_wire ls)"
  let ?r = "nsd_make_key key (labels_wire ls @ b # rest)"
  consider (acc) "b = 0" "?p < 255"
    | (ovr) "b = 0" "?p = 255"
    | (rej) "b \<noteq> 0" "b AND 0xc0 \<noteq> 0 \<or> 255 < ?p + unat b + 1"
    using assms(2,3) by fastforce
  then show ?thesis
  proof cases
    case acc
    have n: "?p + 1 < 256" using acc by simp
    have r: "?r = Inr (of_nat (?p + 1), label_keys ls @ 0 # drop (?p + 1) key)"
      using make_key_root [OF assms(1), of key rest] acc assms(4) by simp
    have u: "unat (of_nat (?p + 1) :: u8) = ?p + 1" by (rule of_nat_len_u8(1) [OF n])
    have z: "(of_nat (?p + 1) :: u8) \<noteq> 0" using of_nat_len_u8(2) [OF n] by simp
    have k: "key_of (of_nat (?p + 1) :: u8, label_keys ls @ 0 # drop (?p + 1) key) = label_keys ls @ [0]"
      unfolding key_of_def fst_conv snd_conv u by (simp add: length_label_keys)
    have nr: "\<not> (b AND 0xc0 \<noteq> 0 \<or> 255 < ?p + unat b + 1)" using acc by simp
    show ?thesis using r u z k nr acc by simp
  next
    case ovr
    have "?r = Inl Out_of_bounds"
      using make_key_root_overrun [OF assms(1) ovr(2) assms(4), of rest] ovr(1) by simp
    then show ?thesis using ovr by simp
  next
    case rej
    have "?r = Inr (0, label_keys ls @ drop ?p key)"
      using make_key_refuse [OF assms(1,2) _ rej, of key rest] assms(4) by simp
    then show ?thesis using rej by auto
  qed
qed

theorem C8_make_key_fails_amended_witness:
  "list_all (\<lambda>l. 0 < length l \<and> length l \<le> 63) [[0x66, 0x4f, 0x6f :: u8]] \<and>
   length (labels_wire [[0x66, 0x4f, 0x6f]]) \<le> 255 \<and>
   length (replicate 255 (0 :: u8)) = 255 \<and>
   top_two_bits_set 0xc0 \<and>
   (\<exists>n buf. nsd_make_key (replicate 255 0) (labels_wire [[0x66, 0x4f, 0x6f]] @ 0 # []) = Inr (n, buf) \<and>
            unat n = length (labels_wire [[0x66, 0x4f, 0x6f]]) + 1 \<and>
            key_of (n, buf) = label_keys [[0x66, 0x4f, 0x6f]] @ [0]) \<and>
   (\<exists>buf. nsd_make_key (replicate 255 0) (labels_wire [[0x66, 0x4f, 0x6f]] @ 0xc0 # [0x0c]) =
            Inr (0, buf))"
proof -
  have a: "\<forall>l \<in> set [[0x66, 0x4f, 0x6f :: u8]]. 0 < length l \<and> length l \<le> 63" by simp
  have f: "length (labels_wire [[0x66, 0x4f, 0x6f]]) \<le> 255" by (simp add: labels_wire_def)
  have k: "length (replicate 255 (0 :: u8)) = 255" by simp
  have t: "top_two_bits_set 0xc0" by (simp add: top_two_bits_set_def)
  have b0: "(0 :: u8) = 0 \<or> (0 :: u8) AND 0xc0 \<noteq> 0 \<or>
            255 < length (labels_wire [[0x66, 0x4f, 0x6f]]) + unat (0 :: u8) + 1"
    by simp
  have bc: "(0xc0 :: u8) = 0 \<or> (0xc0 :: u8) AND 0xc0 \<noteq> 0 \<or>
            255 < length (labels_wire [[0x66, 0x4f, 0x6f]]) + unat (0xc0 :: u8) + 1"
    by simp
  have n0: "\<not> ((0 :: u8) AND 0xc0 \<noteq> 0 \<or>
            255 < length (labels_wire [[0x66, 0x4f, 0x6f]]) + unat (0 :: u8) + 1)"
    by (simp add: labels_wire_def)
  have nc: "(0xc0 :: u8) AND 0xc0 \<noteq> 0" by simp
  from C8_make_key_fails_amended [OF a f b0 k, of "[]"] n0
  have 1: "\<exists>n buf. nsd_make_key (replicate 255 0) (labels_wire [[0x66, 0x4f, 0x6f]] @ 0 # []) = Inr (n, buf) \<and>
            unat n = length (labels_wire [[0x66, 0x4f, 0x6f]]) + 1 \<and>
            key_of (n, buf) = label_keys [[0x66, 0x4f, 0x6f]] @ [0]"
    by blast
  from C8_make_key_fails_amended [OF a f bc k, of "[0x0c]"] nc
  have 2: "\<exists>buf. nsd_make_key (replicate 255 0) (labels_wire [[0x66, 0x4f, 0x6f]] @ 0xc0 # [0x0c]) =
            Inr (0, buf)"
    by blast
  from a f k t 1 2 show ?thesis by (simp only: list_all_iff simp_thms)
qed

text \<open>
  The counterexample to C8 as stated: a single label of 64 octets \<open>0x61\<close>. No octet of
  the wire name has both top bits set and the name has 66 octets, yet the result is 0.
\<close>

theorem C8_long_label_counterexample:
  "\<not> list_ex top_two_bits_set (wire [replicate 64 0x61]) \<and>
   length (wire [replicate 64 0x61]) \<le> 255 \<and>
   map_sum id fst (nsd_make_key (replicate 255 0) (wire [replicate 64 0x61])) = Inr 0"
  by code_simp

text \<open>
  Claim C2 (canonical DNS order of two names equals the lexicographic order of their keys,
  parents before descendants) fails on the code: \<open>nsd_make_key\<close> walks the labels in
  wire order and never reverses them, whereas tree.h documents "Order of labels is reversed
  to maintain hierarchy" and gives the key of \<open>bAr.foo\<close> as \<open>MVV0IHY00\<close>. With
  \<open>foo.\<close> and its child \<open>bar.foo.\<close> the parent is canonically smaller, but the child's
  key \<open>IHY0MVV00\<close> sorts before the parent's key \<open>MVV00\<close>.
\<close>

theorem C2_key_order_not_canonical:
  "canonical_dns_less [[0x66, 0x6f, 0x6f]] [[0x62, 0x61, 0x72], [0x66, 0x6f, 0x6f]] \<and>
   map_sum id key_of (nsd_make_key (replicate 255 0) (wire [[0x66, 0x6f, 0x6f]])) =
     Inr [0x4d, 0x56, 0x56, 0, 0] \<and>
   map_sum id key_of (nsd_make_key (replicate 255 0) (wire [[0x62, 0x61, 0x72], [0x66, 0x6f, 0x6f]])) =
     Inr [0x49, 0x48, 0x59, 0, 0x4d, 0x56, 0x56, 0, 0] \<and>
   lex_less [0x49, 0x48, 0x59, 0, 0x4d, 0x56, 0x56, 0, 0] [0x4d, 0x56, 0x56, 0, 0] \<and>
   \<not> lex_less [0x4d, 0x56, 0x56, 0, 0] [0x49, 0x48, 0x59, 0, 0x4d, 0x56, 0x56, 0, 0]"
  by code_simp

section \<open>Properties of the tree\<close>

subsection \<open>Allocation failure\<close>

lemma fbind_InrD: "fbind m f = Inr y \<Longrightarrow> \<exists>x. m = Inr x \<and> f x = Inr y"
  by (cases m) simp_all

lemma cassert_Inr [simp]: "cassert b = Inr u \<longleftrightarrow> b"
  by (simp add: cassert_def)

lemma alloc_None:
  "alloc s ob = (None, s1) \<Longrightarrow> heap s1 = heap s \<and> root s1 = root s \<and> dummy s1 = dummy s"
  by (auto simp: alloc_def split: list.splits if_splits)

lemma alloc_Some:
  "alloc s ob = (Some b, s1) \<Longrightarrow>
   b = length (heap s) \<and> heap s1 = heap s @ [Some ob] \<and> root s1 = root s \<and> dummy s1 = dummy s"
  by (auto simp: alloc_def split: list.splits if_splits)

lemma node_at_Inr:
  "node_at s p = Inr (a, n) \<Longrightarrow> p = Node_at a \<and> a < length (heap s) \<and> heap s ! a = Some (Inner n)"
  by (auto simp: node_at_def split: ptr.splits if_splits option.splits obj.splits)

lemma add_child256_not_null: "add_child256 s noderef key node \<noteq> Inr (Null_slot, s')"
proof
  assume a: "add_child256 s noderef key node = Inr (Null_slot, s')"
  show False
    using a unfolding add_child256_def
    by (auto dest!: fbind_InrD)
qed

lemma add_child48_null:
  assumes "add_child48 s noderef key node = Inr (Null_slot, s')"
  shows "heap s' = heap s \<and> root s' = root s \<and> dummy s' = dummy s \<and>
         (\<exists>p a n. load s noderef = Inr p \<and> node_at s p = Inr (a, n) \<and> width n = 48)"
proof -
  from assms obtain p a n where
    l: "load s noderef = Inr p" and n: "node_at s p = Inr (a, n)"
    and r: "(if width n = 48 then
       (case alloc_node s nsd_node256 of
          (None, s1) \<Rightarrow> Inr (Null_slot, s1)
        | (Some b, s1) \<Rightarrow>
            fbind (copy_header (zeroed_node nsd_node256) n) (\<lambda>node256.
            fbind (grow48_loop n 0 0 (children node256)) (\<lambda>(cs, cnt).
            fbind (cassert (cnt = width n)) (\<lambda>_.
            fbind (install s1 b (node256\<lparr>children := cs\<rparr>) noderef a) (\<lambda>s2.
            add_child256 s2 noderef key node)))))
     else
       fbind (cassert (width n < 48)) (\<lambda>_.
       fbind (arr_get (keys n) (unat key)) (\<lambda>k.
       fbind (cassert (k = 0)) (\<lambda>_.
       fbind (arr_set (keys n) (unat key) (width n + 1)) (\<lambda>ks.
       fbind (arr_set (children n) (unat (width n + 1) - 1) node) (\<lambda>cs.
       Inr (Child_slot a (unat (width n + 1) - 1),
            set_node s a (n\<lparr>width := width n + 1, keys := ks, children := cs\<rparr>)))))))) = Inr (Null_slot, s')"
    unfolding add_child48_def by (auto dest!: fbind_InrD)
  show ?thesis
  proof (cases "width n = 48")
    case False
    with r show ?thesis by (auto dest!: fbind_InrD)
  next
    case True
    show ?thesis
    proof (cases "alloc_node s nsd_node256")
      case (Pair ob s1)
      show ?thesis
      proof (cases ob)
        case None
        with r True Pair have "s' = s1" by simp
        with Pair None alloc_None [of s _ s1] l n True show ?thesis
          by (auto simp: alloc_node_def)
      next
        case (Some b)
        with r True Pair show ?thesis
          by (auto dest!: fbind_InrD simp: add_child256_not_null)
      qed
    qed
  qed
qed

lemma install_loaded:
  assumes a: "a < length (heap s0)" and h: "heap s = heap s0 @ [x]" and b: "b = length (heap s0)"
    and i: "install s b n' noderef a = Inr s2"
    and l: "load s2 noderef = Inr q" and m: "node_at s2 q = Inr (c, m)"
  shows "width m = width n' \<and> ntype m = ntype n'"
proof (cases noderef)
  case Null_slot
  with i show ?thesis by (simp add: install_def store_def)
next
  case Root_slot
  with i l m a h b show ?thesis
    by (auto simp: install_def store_def load_def set_node_def free_node_def node_at_def nth_append
             split: if_splits)
next
  case Local_slot
  with i l m a h b show ?thesis
    by (auto simp: install_def store_def load_def set_node_def free_node_def node_at_def nth_append
             split: if_splits)
next
  case (Child_slot c' j)
  from i Child_slot obtain mc cs where
    mc: "node_at (set_node s b n') (Node_at c') = Inr (c', mc)"
    and cs: "arr_set (children mc) j (Node_at b) = Inr cs"
    and s2: "s2 = free_node (set_node (set_node s b n') c' (mc\<lparr>children := cs\<rparr>)) (Node_at a)"
    by (auto simp: install_def store_def dest!: fbind_InrD node_at_Inr
             simp: node_at_def split: if_splits option.splits obj.splits)
  from mc have c'len: "c' < length (heap s)" by (auto dest!: node_at_Inr simp: set_node_def)
  have ca: "c' \<noteq> a"
  proof
    assume "c' = a"
    with l Child_slot s2 c'len show False
      by (auto simp: load_def node_at_def free_node_def set_node_def dest!: fbind_InrD split: if_splits)
  qed
  from cs have j: "j < length (children mc)" and csd: "cs = (children mc)[j := Node_at b]"
    by (auto simp: arr_set_def split: if_splits)
  have "load s2 noderef = Inr (Node_at b)"
    using Child_slot s2 ca c'len j csd
    by (simp add: load_def node_at_def free_node_def set_node_def arr_get_def)
  with l have q: "q = Node_at b" by simp
  show ?thesis
  proof (cases "c' = b")
    case True
    with mc h b have "mc = n'" by (auto simp: node_at_def set_node_def split: if_splits)
    with m q s2 True a h b show ?thesis
      by (auto simp: node_at_def free_node_def set_node_def split: if_splits)
  next
    case False
    with m q s2 a h b c'len show ?thesis
      by (auto simp: node_at_def free_node_def set_node_def nth_append split: if_splits)
  qed
qed

lemma copy_header_Inr:
  "copy_header dest src = Inr d \<Longrightarrow> width d = width src \<and> ntype d = ntype dest"
  by (auto simp: copy_header_def dest!: fbind_InrD)

lemma grow38_loop_cnt:
  "grow38_loop n idx cnt ks cs = Inr (ks', cs', cnt') \<Longrightarrow> unat cnt \<le> idx \<Longrightarrow> idx \<le> 38 \<Longrightarrow>
   unat cnt' \<le> 38"
proof (induction n idx cnt ks cs rule: grow38_loop.induct)
  case (1 node38 idx cnt ks cs)
  show ?case
  proof (cases "idx < 38")
    case False
    with "1.prems" show ?thesis by (subst (asm) grow38_loop.simps) simp
  next
    case True
    from "1.prems"(1) True obtain c where c: "arr_get (children node38) idx = Inr c"
      and r: "(if c \<noteq> Null then
          fbind (arr_set cs (unat cnt) c) (\<lambda>cs'.
          fbind (arr_set ks (unat (node38_unxlat (of_nat idx))) (cnt + 1)) (\<lambda>ks'.
          if cnt + 1 = width node38 then Inr (ks', cs', cnt + 1)
          else grow38_loop node38 (idx + 1) (cnt + 1) ks' cs'))
        else grow38_loop node38 (idx + 1) cnt ks cs) = Inr (ks', cs', cnt')"
      by (subst (asm) grow38_loop.simps) (auto dest!: fbind_InrD)
    have u: "unat (cnt + 1) \<le> idx + 1" using "1.prems"(2) True by unat_arith
    show ?thesis
    proof (cases "c = Null")
      case True
      with r have "grow38_loop node38 (idx + 1) cnt ks cs = Inr (ks', cs', cnt')" by simp
      from "1.IH"(2) [OF \<open>idx < 38\<close> c] True this "1.prems" \<open>idx < 38\<close> show ?thesis by simp
    next
      case False
      with r obtain cs1 ks1 where cs1: "arr_set cs (unat cnt) c = Inr cs1"
        and ks1: "arr_set ks (unat (node38_unxlat (of_nat idx))) (cnt + 1) = Inr ks1"
        and r2: "(if cnt + 1 = width node38 then Inr (ks1, cs1, cnt + 1)
          else grow38_loop node38 (idx + 1) (cnt + 1) ks1 cs1) = Inr (ks', cs', cnt')"
        by (auto dest!: fbind_InrD)
      show ?thesis
      proof (cases "cnt + 1 = width node38")
        case True
        with r2 have "cnt' = cnt + 1" by simp
        with u \<open>idx < 38\<close> show ?thesis by simp
      next
        case F: False
        with r2 have "grow38_loop node38 (idx + 1) (cnt + 1) ks1 cs1 = Inr (ks', cs', cnt')" by simp
        from "1.IH"(1) [OF \<open>idx < 38\<close> c False cs1 ks1 F this] u \<open>idx < 38\<close> show ?thesis by simp
      qed
    qed
  qed
qed

lemma add_child38_null:
  assumes "add_child38 s noderef key child = Inr (Null_slot, s')"
  shows "heap s' = heap s \<and> root s' = root s \<and> dummy s' = dummy s \<and> node38_xlat key = - 1"
proof -
  from assms obtain p a n where
    l: "load s noderef = Inr p" and n: "node_at s p = Inr (a, n)"
    and r: "(let idx = node38_xlat key in
     if idx = - 1 then
       (case alloc_node s nsd_node48 of
          (None, s1) \<Rightarrow> Inr (Null_slot, s1)
        | (Some b, s1) \<Rightarrow>
            fbind (copy_header (zeroed_node nsd_node48) n) (\<lambda>node48.
            fbind (grow38_loop n 0 0 (keys node48) (children node48)) (\<lambda>(ks, cs, cnt).
            fbind (cassert (cnt = width n)) (\<lambda>_.
            fbind (install s1 b (node48\<lparr>keys := ks, children := cs\<rparr>) noderef a) (\<lambda>s2.
            add_child48 s2 noderef key child)))))
     else
       fbind (cassert (width n < 38)) (\<lambda>_.
       fbind (arr_get (children n) (unat idx)) (\<lambda>c.
       fbind (cassert (c = Null)) (\<lambda>_.
       fbind (arr_set (children n) (unat idx) child) (\<lambda>cs.
       Inr (Child_slot a (unat idx),
            set_node s a (n\<lparr>width := width n + 1, children := cs\<rparr>))))))) = Inr (Null_slot, s')"
    unfolding add_child38_def by (auto dest!: fbind_InrD)
  show ?thesis
  proof (cases "node38_xlat key = - 1")
    case False
    with r show ?thesis by (auto dest!: fbind_InrD simp: Let_def)
  next
    case True
    show ?thesis
    proof (cases "alloc_node s nsd_node48")
      case (Pair ob s1)
      show ?thesis
      proof (cases ob)
        case None
        with r True Pair have "s' = s1" by simp
        with Pair None alloc_None [of s _ s1] True show ?thesis
          by (auto simp: alloc_node_def)
      next
        case (Some b)
        with r True Pair obtain node48 ks cs cnt s2 where
          ch: "copy_header (zeroed_node nsd_node48) n = Inr node48"
          and g: "grow38_loop n 0 0 (keys node48) (children node48) = Inr (ks, cs, cnt)"
          and ca: "cnt = width n"
          and i: "install s1 b (node48\<lparr>keys := ks, children := cs\<rparr>) noderef a = Inr s2"
          and ac: "add_child48 s2 noderef key child = Inr (Null_slot, s')"
          by (auto dest!: fbind_InrD)
        from add_child48_null [OF ac] obtain q c m where
          q: "load s2 noderef = Inr q" "node_at s2 q = Inr (c, m)" "width m = 48" by blast
        from Pair Some have al: "b = length (heap s)" "heap s1 = heap s @ [Some (Inner (zeroed_node nsd_node48))]"
          by (auto simp: alloc_node_def dest: alloc_Some)
        from n have "a < length (heap s)" by (auto dest: node_at_Inr)
        from install_loaded [OF this al(2) al(1) i q(1,2)]
        have "width m = width node48" by simp
        also have "\<dots> = cnt" using ch ca by (auto dest: copy_header_Inr)
        finally have "cnt = 48" using q(3) by simp
        moreover have "unat cnt \<le> 38" using grow38_loop_cnt [OF g] by simp
        ultimately show ?thesis by simp
      qed
    qed
  qed
qed

lemma ishost_loop_True: "ishost_loop ks n idx ih = Inr True \<Longrightarrow> ih"
proof (induction ks n idx ih rule: ishost_loop.induct)
  case (1 ks n idx ishost)
  show ?case
  proof (cases "ishost \<and> idx < n")
    case True then show ?thesis by simp
  next
    case False
    with "1.prems" show ?thesis by (subst (asm) ishost_loop.simps) auto
  qed
qed

lemma insert_sorted_not_null: "insert_sorted s a n idx0 key child \<noteq> Inr (Null_slot, s')"
  unfolding insert_sorted_def
  by (auto dest!: fbind_InrD split: if_splits)

lemma promoted_width:
  assumes n: "node_at s p = Inr (a, n)"
    and al: "alloc_node s t = (Some b, s1)"
    and i: "install s1 b n' noderef a = Inr s2"
    and q: "load s2 noderef = Inr q" "node_at s2 q = Inr (c, m)"
  shows "width m = width n'"
proof -
  from al have al': "b = length (heap s)" "heap s1 = heap s @ [Some (Inner (zeroed_node t))]"
    by (auto simp: alloc_node_def dest: alloc_Some)
  from n have "a < length (heap s)" by (auto dest: node_at_Inr)
  from install_loaded [OF this al'(2) al'(1) i q] show ?thesis by simp
qed

lemma alloc_node_None:
  "alloc_node s t = (None, s1) \<Longrightarrow> heap s1 = heap s \<and> root s1 = root s \<and> dummy s1 = dummy s"
  by (auto simp: alloc_node_def dest: alloc_None)

lemma add_child32_null:
  assumes "add_child32 s noderef key child = Inr (Null_slot, s')"
  shows "heap s' = heap s \<and> root s' = root s \<and> dummy s' = dummy s \<and>
         (\<exists>p a n. load s noderef = Inr p \<and> node_at s p = Inr (a, n) \<and> width n = 32)"
proof -
  from assms obtain p a n where
    l: "load s noderef = Inr p" and n: "node_at s p = Inr (a, n)"
    and r: "(if width n = 32 then
       fbind (ishost_loop (keys n) 32 0 (node38_xlat key \<noteq> - 1)) (\<lambda>ishost.
       if ishost then
         (case alloc_node s nsd_node38 of
            (None, s1) \<Rightarrow> Inr (Null_slot, s1)
          | (Some b, s1) \<Rightarrow>
              fbind (copy_header (zeroed_node nsd_node38) n) (\<lambda>node38.
              fbind (foldM (\<lambda>idx cs.
                       fbind (arr_get (keys n) idx) (\<lambda>k.
                       fbind (arr_get (children n) idx) (\<lambda>c.
                       arr_set cs (unat (node38_xlat k)) c)))
                     [0 ..< 32] (children node38)) (\<lambda>cs.
              fbind (install s1 b (node38\<lparr>children := cs\<rparr>) noderef a) (\<lambda>s2.
            add_child38 s2 noderef key child))))
       else
         (case alloc_node s nsd_node48 of
            (None, s1) \<Rightarrow> Inr (Null_slot, s1)
          | (Some b, s1) \<Rightarrow>
              fbind (copy_header (zeroed_node nsd_node48) n) (\<lambda>node48.
              fbind (foldM (\<lambda>idx (ks, cs, cnt).
                       fbind (arr_get (children n) idx) (\<lambda>c.
                       fbind (arr_set cs (unat cnt) c) (\<lambda>cs'.
                       fbind (arr_get (keys n) idx) (\<lambda>k.
                       fbind (arr_set ks (unat k) (cnt + 1)) (\<lambda>ks'.
                       Inr (ks', cs', cnt + 1))))))
                     [0 ..< 32] (keys node48, children node48, 0 :: u8)) (\<lambda>(ks, cs, cnt).
              fbind (install s1 b (node48\<lparr>keys := ks, children := cs\<rparr>) noderef a) (\<lambda>s2.
            add_child48 s2 noderef key child)))))
     else
       fbind (cassert (width n < 32)) (\<lambda>_.
       fbind (nsd_v32_findgt_u8 key (keys n) (width n)) (\<lambda>idx.
       insert_sorted s a n idx key child))) = Inr (Null_slot, s')"
    unfolding add_child32_def by (auto dest!: fbind_InrD)
  show ?thesis
  proof (cases "width n = 32")
    case False
    with r show ?thesis by (auto dest!: fbind_InrD simp: insert_sorted_not_null)
  next
    case True
    with r obtain ishost where ih: "ishost_loop (keys n) 32 0 (node38_xlat key \<noteq> - 1) = Inr ishost"
      and r2: "(if ishost then
         (case alloc_node s nsd_node38 of
            (None, s1) \<Rightarrow> Inr (Null_slot, s1)
          | (Some b, s1) \<Rightarrow>
              fbind (copy_header (zeroed_node nsd_node38) n) (\<lambda>node38.
              fbind (foldM (\<lambda>idx cs.
                       fbind (arr_get (keys n) idx) (\<lambda>k.
                       fbind (arr_get (children n) idx) (\<lambda>c.
                       arr_set cs (unat (node38_xlat k)) c)))
                     [0 ..< 32] (children node38)) (\<lambda>cs.
              fbind (install s1 b (node38\<lparr>children := cs\<rparr>) noderef a) (\<lambda>s2.
            add_child38 s2 noderef key child))))
       else
         (case alloc_node s nsd_node48 of
            (None, s1) \<Rightarrow> Inr (Null_slot, s1)
          | (Some b, s1) \<Rightarrow>
              fbind (copy_header (zeroed_node nsd_node48) n) (\<lambda>node48.
              fbind (foldM (\<lambda>idx (ks, cs, cnt).
                       fbind (arr_get (children n) idx) (\<lambda>c.
                       fbind (arr_set cs (unat cnt) c) (\<lambda>cs'.
                       fbind (arr_get (keys n) idx) (\<lambda>k.
                       fbind (arr_set ks (unat k) (cnt + 1)) (\<lambda>ks'.
                       Inr (ks', cs', cnt + 1))))))
                     [0 ..< 32] (keys node48, children node48, 0 :: u8)) (\<lambda>(ks, cs, cnt).
              fbind (install s1 b (node48\<lparr>keys := ks, children := cs\<rparr>) noderef a) (\<lambda>s2.
            add_child48 s2 noderef key child))))) = Inr (Null_slot, s')"
      by (auto dest!: fbind_InrD)
    show ?thesis
    proof (cases ishost)
      case ht: True
      with ih have kx: "node38_xlat key \<noteq> - 1" by (auto dest: ishost_loop_True)
      show ?thesis
      proof (cases "alloc_node s nsd_node38")
        case (Pair ob s1)
        show ?thesis
        proof (cases ob)
          case None
          with r2 ht Pair have "s' = s1" by simp
          with Pair None alloc_node_None [of s _ s1] l n True show ?thesis by auto
        next
          case (Some b)
          with r2 ht Pair obtain s2 where "add_child38 s2 noderef key child = Inr (Null_slot, s')"
            by (auto dest!: fbind_InrD)
          from add_child38_null [OF this] kx show ?thesis by simp
        qed
      qed
    next
      case hf: False
      show ?thesis
      proof (cases "alloc_node s nsd_node48")
        case (Pair ob s1)
        show ?thesis
        proof (cases ob)
          case None
          with r2 hf Pair have "s' = s1" by simp
          with Pair None alloc_node_None [of s _ s1] l n True show ?thesis by auto
        next
          case (Some b)
          with r2 hf Pair obtain node48 ks cs s2 where
            ch: "copy_header (zeroed_node nsd_node48) n = Inr node48"
            and i: "install s1 b (node48\<lparr>keys := ks, children := cs\<rparr>) noderef a = Inr s2"
            and ac: "add_child48 s2 noderef key child = Inr (Null_slot, s')"
            by (auto dest!: fbind_InrD)
          from add_child48_null [OF ac] obtain q c m where
            q: "load s2 noderef = Inr q" "node_at s2 q = Inr (c, m)" "width m = 48" by blast
          from Pair Some have al: "alloc_node s nsd_node48 = (Some b, s1)" by simp
          from promoted_width [OF n al i q(1,2)] ch True q(3) show ?thesis
            by (auto dest: copy_header_Inr)
        qed
      qed
    qed
  qed
qed

lemma add_child16_null:
  assumes "add_child16 sse2 s noderef key child = Inr (Null_slot, s')"
  shows "heap s' = heap s \<and> root s' = root s \<and> dummy s' = dummy s \<and>
         (\<exists>p a n. load s noderef = Inr p \<and> node_at s p = Inr (a, n) \<and> width n = 16)"
proof -
  from assms obtain p a n where
    l: "load s noderef = Inr p" and n: "node_at s p = Inr (a, n)"
    and r: "(if width n = 16 then
       (case alloc_node s nsd_node32 of
          (None, s1) \<Rightarrow> Inr (Null_slot, s1)
        | (Some b, s1) \<Rightarrow>
            fbind (copy_header (zeroed_node nsd_node32) n) (\<lambda>node32.
            fbind (memcpy (keys node32) (keys n) 0 16) (\<lambda>ks.
            fbind (memcpy (children node32) (children n) 0 16) (\<lambda>cs.
            fbind (install s1 b (node32\<lparr>keys := ks, children := cs\<rparr>) noderef a) (\<lambda>s2.
            add_child32 s2 noderef key child)))))
     else
       fbind (cassert (width n < 16)) (\<lambda>_.
       fbind (nsd_v16_findgt_u8 sse2 key (keys n) (width n)) (\<lambda>idx.
       insert_sorted s a n idx key child))) = Inr (Null_slot, s')"
    unfolding add_child16_def by (auto dest!: fbind_InrD)
  show ?thesis
  proof (cases "width n = 16")
    case False
    with r show ?thesis by (auto dest!: fbind_InrD simp: insert_sorted_not_null)
  next
    case True
    show ?thesis
    proof (cases "alloc_node s nsd_node32")
      case (Pair ob s1)
      show ?thesis
      proof (cases ob)
        case None
        with r True Pair have "s' = s1" by simp
        with Pair None alloc_node_None [of s _ s1] l n True show ?thesis by auto
      next
        case (Some b)
        with r True Pair obtain node32 ks cs s2 where
          ch: "copy_header (zeroed_node nsd_node32) n = Inr node32"
          and i: "install s1 b (node32\<lparr>keys := ks, children := cs\<rparr>) noderef a = Inr s2"
          and ac: "add_child32 s2 noderef key child = Inr (Null_slot, s')"
          by (auto dest!: fbind_InrD)
        from add_child32_null [OF ac] obtain q c m where
          q: "load s2 noderef = Inr q" "node_at s2 q = Inr (c, m)" "width m = 32" by blast
        from Pair Some have al: "alloc_node s nsd_node32 = (Some b, s1)" by simp
        from promoted_width [OF n al i q(1,2)] ch True q(3) show ?thesis
          by (auto dest: copy_header_Inr)
      qed
    qed
  qed
qed

lemma add_child4_null:
  assumes "add_child4 sse2 s noderef key child = Inr (Null_slot, s')"
  shows "heap s' = heap s \<and> root s' = root s \<and> dummy s' = dummy s \<and>
         (\<exists>p a n. load s noderef = Inr p \<and> node_at s p = Inr (a, n) \<and> width n = 4)"
proof -
  from assms obtain p a n where
    l: "load s noderef = Inr p" and n: "node_at s p = Inr (a, n)"
    and r: "(if width n = 4 then
       (case alloc_node s nsd_node16 of
          (None, s1) \<Rightarrow> Inr (Null_slot, s1)
        | (Some b, s1) \<Rightarrow>
            fbind (copy_header (zeroed_node nsd_node16) n) (\<lambda>node16.
            fbind (memcpy (keys node16) (keys n) 0 4) (\<lambda>ks.
            fbind (memcpy (children node16) (children n) 0 4) (\<lambda>cs.
            fbind (install s1 b (node16\<lparr>keys := ks, children := cs\<rparr>) noderef a) (\<lambda>s2.
            add_child16 sse2 s2 noderef key child)))))
     else
       fbind (cassert (width n < 4)) (\<lambda>_.
       fbind (add_child4_scan n key 0) (\<lambda>idx.
       fbind
         (if idx < unat (width n) then
            fbind (arr_get (keys n) idx) (\<lambda>k.
            fbind (cassert (key \<noteq> k)) (\<lambda>_.
            fbind (memmove (keys n) (idx + 1) idx (unat (width n) - idx)) (\<lambda>ks.
            fbind (memmove (children n) (idx + 1) idx (unat (width n) - idx)) (\<lambda>cs.
            Inr (ks, cs)))))
          else Inr (keys n, children n))
         (\<lambda>(ks, cs).
       fbind (arr_set ks idx key) (\<lambda>ks'.
       fbind (arr_set cs idx child) (\<lambda>cs'.
       Inr (Child_slot a idx,
            set_node s a (n\<lparr>width := width n + 1, keys := ks', children := cs'\<rparr>)))))))) = Inr (Null_slot, s')"
    unfolding add_child4_def by (auto dest!: fbind_InrD)
  show ?thesis
  proof (cases "width n = 4")
    case False
    with r show ?thesis by (auto dest!: fbind_InrD)
  next
    case True
    show ?thesis
    proof (cases "alloc_node s nsd_node16")
      case (Pair ob s1)
      show ?thesis
      proof (cases ob)
        case None
        with r True Pair have "s' = s1" by simp
        with Pair None alloc_node_None [of s _ s1] l n True show ?thesis by auto
      next
        case (Some b)
        with r True Pair obtain node16 ks cs s2 where
          ch: "copy_header (zeroed_node nsd_node16) n = Inr node16"
          and i: "install s1 b (node16\<lparr>keys := ks, children := cs\<rparr>) noderef a = Inr s2"
          and ac: "add_child16 sse2 s2 noderef key child = Inr (Null_slot, s')"
          by (auto dest!: fbind_InrD)
        from add_child16_null [OF ac] obtain q c m where
          q: "load s2 noderef = Inr q" "node_at s2 q = Inr (c, m)" "width m = 16" by blast
        from Pair Some have al: "alloc_node s nsd_node16 = (Some b, s1)" by simp
        from promoted_width [OF n al i q(1,2)] ch True q(3) show ?thesis
          by (auto dest: copy_header_Inr)
      qed
    qed
  qed
qed

lemma add_child_null:
  assumes "add_child sse2 s noderef key child = Inr (Null_slot, s')"
  shows "heap s' = heap s \<and> root s' = root s \<and> dummy s' = dummy s"
proof -
  from assms obtain n :: nsd_node where
    r: "(case ntype n of
       nsd_node4 \<Rightarrow> add_child4 sse2 s noderef key child
     | nsd_node16 \<Rightarrow> add_child16 sse2 s noderef key child
     | nsd_node32 \<Rightarrow> add_child32 s noderef key child
     | nsd_node38 \<Rightarrow> add_child38 s noderef key child
     | nsd_node48 \<Rightarrow> add_child48 s noderef key child
     | nsd_node256 \<Rightarrow> add_child256 s noderef key child) = Inr (Null_slot, s')"
    unfolding add_child_def by (fastforce dest!: fbind_InrD)
  then show ?thesis
    using add_child4_null [of sse2 s noderef key child s']
      add_child16_null [of sse2 s noderef key child s']
      add_child32_null [of s noderef key child s']
      add_child38_null [of s noderef key child s']
      add_child48_null [of s noderef key child s']
      add_child256_not_null [of s noderef key child s']
    by (cases "ntype n") simp_all
qed

lemma insert_leaf_no_memory:
  assumes "insert_leaf sse2 s path key key_len noderef depth = Inr (nsd_no_memory, s', path')"
  shows "path' = path \<and> same_tree s s'"
proof -
  from assms obtain r s1 where ml: "make_leaf s key key_len = Inr (r, s1)"
    and c: "(case r of
       None \<Rightarrow> Inr (nsd_no_memory, s1, path)
     | Some l \<Rightarrow>
         fbind (arr_get key (unat depth)) (\<lambda>k.
         fbind (add_child sse2 s1 noderef k (Leaf_at l)) (\<lambda>(childref, s2).
         if childref = Null_slot then Inr (nsd_no_memory, free_node s2 (Leaf_at l), path)
         else
           fbind (push path (depth, childref)) (\<lambda>path'.
           Inr (nsd_ok, s2, path'))))) = Inr (nsd_no_memory, s', path')"
    unfolding insert_leaf_def by (auto dest!: fbind_InrD)
  show ?thesis
  proof (cases r)
    case None
    with c have "s' = s1" "path' = path" by simp_all
    moreover from ml None have "heap s1 = heap s \<and> root s1 = root s"
      by (auto simp: make_leaf_def split: prod.splits option.splits if_splits dest: alloc_None)
    ultimately show ?thesis by (auto simp: same_tree_def intro: exI [of _ 0])
  next
    case (Some l)
    with c obtain k childref s2 where
      ac: "add_child sse2 s1 noderef k (Leaf_at l) = Inr (childref, s2)"
      and r2: "(if childref = Null_slot then Inr (nsd_no_memory, free_node s2 (Leaf_at l), path)
         else fbind (push path (depth, childref)) (\<lambda>path'. Inr (nsd_ok, s2, path'))) =
         Inr (nsd_no_memory, s', path')"
      by (auto dest!: fbind_InrD)
    from r2 have cn: "childref = Null_slot" and s': "s' = free_node s2 (Leaf_at l)" and p: "path' = path"
      by (auto split: if_splits dest!: fbind_InrD)
    from ml Some obtain ob where l: "l = length (heap s)" and h1: "heap s1 = heap s @ [Some ob]"
      and r1: "root s1 = root s"
      by (auto simp: make_leaf_def split: prod.splits option.splits if_splits dest: alloc_Some)
    from add_child_null [OF ac [unfolded cn]] have "heap s2 = heap s1" "root s2 = root s1" by simp_all
    with s' l h1 r1 have "heap s' = heap s @ replicate 1 None" "root s' = root s"
      by (simp_all add: free_node_def)
    with p show ?thesis unfolding same_tree_def by blast
  qed
qed

lemma split_node_no_memory:
  assumes "split_node sse2 s key_len depth noderef p cnt = Inr (nsd_no_memory, s')"
  shows "same_tree s s'"
proof -
  from assms obtain n :: nsd_node where
    c: "(case alloc_node s nsd_node4 of
       (None, s1) \<Rightarrow> Inr (nsd_no_memory, s1)
     | (Some b, s1) \<Rightarrow>
         fbind (memcpy (prefix_arr (zeroed_node nsd_node4)) (prefix_arr n) 0 (unat cnt)) (\<lambda>pre.
         fbind (arr_get (prefix_arr n) (unat cnt)) (\<lambda>k.
         fbind (add_child sse2
                  ((set_node s1 b (zeroed_node nsd_node4\<lparr>prefix_len := cnt, prefix_arr := pre\<rparr>))
                     \<lparr>dummy := Node_at b\<rparr>)
                  Local_slot k p) (\<lambda>(_, s2).
         fbind (node_at s2 p) (\<lambda>(a', n').
         fbind
           (if prefix_len n' - (1 + cnt) \<noteq> 0 then
              memmove (prefix_arr n') 0 (1 + unat cnt) (unat (prefix_len n' - (1 + cnt)))
            else Inr (replicate (length (prefix_arr n')) 0))
           (\<lambda>pre'.
         fbind (store (set_node s2 a' (n'\<lparr>prefix_len := prefix_len n' - (1 + cnt),
                                             prefix_arr := pre'\<rparr>))
                  noderef (dummy s2)) (\<lambda>s3.
         Inr (nsd_ok, s3)))))))) = Inr (nsd_no_memory, s')"
    unfolding split_node_def by (fastforce dest!: fbind_InrD)
  show ?thesis
  proof (cases "alloc_node s nsd_node4")
    case (Pair ob s1)
    show ?thesis
    proof (cases ob)
      case None
      with c Pair have "s' = s1" by simp
      with Pair None alloc_node_None [of s _ s1] show ?thesis
        by (auto simp: same_tree_def intro: exI [of _ 0])
    next
      case (Some b)
      with c Pair show ?thesis by (auto dest!: fbind_InrD)
    qed
  qed
qed

lemma load_unchanged:
  assumes "dummy s1 = dummy s" and "load s r = Inr q"
    and "r = Local_slot \<or> (\<exists>c j. r = Child_slot c j \<and> (c < length (heap s) \<longrightarrow> c < length (heap s1) \<and> heap s1 ! c = heap s ! c))"
  shows "load s1 r = Inr q"
proof -
  from assms(3) show ?thesis
  proof
    assume "r = Local_slot" with assms show ?thesis by (simp add: load_def)
  next
    assume "\<exists>c j. r = Child_slot c j \<and> (c < length (heap s) \<longrightarrow> c < length (heap s1) \<and> heap s1 ! c = heap s ! c)"
    then obtain c j where r: "r = Child_slot c j"
      and i: "c < length (heap s) \<longrightarrow> c < length (heap s1) \<and> heap s1 ! c = heap s ! c" by blast
    from assms(2) r have "c < length (heap s)"
      by (auto simp: load_def node_at_def dest!: fbind_InrD split: if_splits)
    with i assms(2) r show ?thesis by (auto simp: load_def node_at_def)
  qed
qed

lemma discard_chain_frees:
  "discard_chain s relpath = Inr s' \<Longrightarrow> chain_ok l0 s relpath \<Longrightarrow>
   root s' = root s \<and> length (heap s') = length (heap s) \<and>
   (\<forall>j < length (heap s).
      heap s' ! j = (if l0 \<le> j \<and> j < l0 + length relpath then None else heap s ! j))"
proof (induction relpath arbitrary: s rule: rev_induct)
  case Nil
  then show ?case by (subst (asm) discard_chain.simps) auto
next
  case (snoc lv rp)
  let ?t = "l0 + length rp"
  from snoc.prems(2) have lt: "load s (snd lv) = Inr (Node_at ?t)"
    by (auto simp: chain_ok_def nth_append dest: spec [of _ "length rp"])
  from snoc.prems(1) lt have d: "discard_chain (free_node s (Node_at ?t)) rp = Inr s'"
    by (subst (asm) discard_chain.simps) simp
  let ?s1 = "free_node s (Node_at ?t)"
  have h1: "heap ?s1 = (heap s)[?t := None]" "root ?s1 = root s" "dummy ?s1 = dummy s"
    by (simp_all add: free_node_def)
  have ok: "chain_ok l0 ?s1 rp"
    unfolding chain_ok_def
  proof (intro allI impI)
    fix i assume i: "i < length rp"
    with snoc.prems(2) have a: "load s (snd (rp ! i)) = Inr (Node_at (l0 + i))"
      and b: "snd (rp ! i) = Local_slot \<or> (\<exists>c j. snd (rp ! i) = Child_slot c j \<and> l0 \<le> c \<and> c < l0 + i)"
      by (auto simp: chain_ok_def nth_append dest!: spec [of _ i])
    from b i have "snd (rp ! i) = Local_slot \<or> (\<exists>c j. snd (rp ! i) = Child_slot c j \<and>
        (c < length (heap s) \<longrightarrow> c < length (heap ?s1) \<and> heap ?s1 ! c = heap s ! c))"
      by (auto simp: h1)
    from load_unchanged [OF h1(3) a this] b
    show "load ?s1 (snd (rp ! i)) = Inr (Node_at (l0 + i)) \<and>
        (snd (rp ! i) = Local_slot \<or> (\<exists>c j. snd (rp ! i) = Child_slot c j \<and> l0 \<le> c \<and> c < l0 + i))"
      by simp
  qed
  from snoc.IH [OF d ok] have r: "root s' = root ?s1" "length (heap s') = length (heap ?s1)"
    and c: "\<forall>j < length (heap ?s1). heap s' ! j = (if l0 \<le> j \<and> j < l0 + length rp then None else heap ?s1 ! j)"
    by simp_all
  show ?case
  proof (intro conjI allI impI)
    show "root s' = root s" using r h1 by simp
    show "length (heap s') = length (heap s)" using r h1 by simp
    fix j assume j: "j < length (heap s)"
    with c h1 have "heap s' ! j = (if l0 \<le> j \<and> j < l0 + length rp then None else (heap s)[?t := None] ! j)"
      by simp
    then show "heap s' ! j = (if l0 \<le> j \<and> j < l0 + length (rp @ [lv]) then None else heap s ! j)"
      using j by (auto simp: nth_list_update)
  qed
qed

lemma add_child_fresh4:
  assumes l: "load s r = Inr (Node_at t)" and n: "node_at s (Node_at t) = Inr (t, n)"
    and f: "ntype n = nsd_node4" "width n = 0" "length (keys n) = 4" "length (children n) = 4"
  shows "add_child sse2 s r k c =
         Inr (Child_slot t 0,
              set_node s t (n\<lparr>width := 1, keys := (keys n)[0 := k], children := (children n)[0 := c]\<rparr>))"
proof -
  from l have r: "r \<noteq> Null_slot" by (auto simp: load_def)
  have sc: "add_child4_scan n k 0 = Inr 0"
    using f by (subst add_child4_scan.simps) simp
  show ?thesis
    using l n f r sc
    by (simp add: add_child_def add_child4_def cassert_def arr_set_def)
qed

lemma chain_node_shape:
  assumes "(if 0 < len then
              fbind (memcpy (prefix_arr (zeroed_node nsd_node4)) key off (unat len))
                (\<lambda>pre. Inr (zeroed_node nsd_node4\<lparr>prefix_arr := pre, prefix_len := len\<rparr>))
            else Inr (zeroed_node nsd_node4)) = Inr node"
  shows "ntype node = nsd_node4 \<and> width node = 0 \<and> length (keys node) = 4 \<and> length (children node) = 4"
  using assms
  by (auto simp: zeroed_node_def keys_size_def children_size_def split: if_splits dest!: fbind_InrD)

lemma same_tree_from_cells:
  assumes "root s' = root s0" and "length (heap s') = length (heap s0) + k"
    and "\<And>j. j < length (heap s0) \<Longrightarrow> heap s' ! j = heap s0 ! j"
    and "\<And>j. length (heap s0) \<le> j \<Longrightarrow> j < length (heap s0) + k \<Longrightarrow> heap s' ! j = None"
  shows "same_tree s0 s'"
proof -
  have "heap s' = heap s0 @ replicate k None"
    using assms(2-4) by (intro nth_equalityI) (auto simp: nth_append)
  with assms(1) show ?thesis unfolding same_tree_def by blast
qed

lemma chain_inv_first:
  assumes inv: "chain_inv s0 s []" and h1: "heap s1 = heap s @ [x]" "root s1 = root s"
    and sh: "ntype node = nsd_node4" "width node = 0" "length (keys node) = 4" "length (children node) = 4"
    and b: "b = length (heap s)"
  shows "chain_inv s0 ((set_node s1 b node)\<lparr>dummy := Node_at b\<rparr>) ([] @ [(depth, Local_slot)])"
proof -
  from inv have l: "length (heap s) = length (heap s0)" and t: "take (length (heap s0)) (heap s) = heap s0"
    and r: "root s = root s0"
    by (simp_all add: chain_inv_def)
  from l t have hs: "heap s = heap s0" by simp
  show ?thesis
    unfolding chain_inv_def chain_ok_def
    using h1 sh b hs r by (simp add: set_node_def load_def)
qed

lemma chain_inv_next:
  assumes inv: "chain_inv s0 s relpath" and ne: "relpath \<noteq> []"
    and h1: "heap s1 = heap s @ [x]" "root s1 = root s" "dummy s1 = dummy s"
    and sh: "ntype node = nsd_node4" "width node = 0" "length (keys node) = 4" "length (children node) = 4"
    and b: "b = length (heap s)"
    and ac: "add_child sse2 (set_node s1 b node) (snd (last relpath)) k (Node_at b) = Inr (childref, s2)"
  shows "chain_inv s0 s2 (relpath @ [(depth, childref)])"
proof -
  let ?l0 = "length (heap s0)"
  let ?sA = "set_node s1 b node"
  let ?t = "length (heap s) - 1"
  from inv ne have r: "root s = root s0" and len: "length (heap s) = ?l0 + length relpath"
    and tk: "take ?l0 (heap s) = heap s0" and ok: "chain_ok ?l0 s relpath"
    by (simp_all add: chain_inv_def)
  from inv ne obtain n where n: "heap s ! ?t = Some (Inner n)"
    and nsh: "ntype n = nsd_node4" "width n = 0" "length (keys n) = 4" "length (children n) = 4"
    by (auto simp: chain_inv_def)
  have hA: "heap ?sA = heap s @ [Some (Inner node)]" "root ?sA = root s" "dummy ?sA = dummy s"
    using h1 b by (simp_all add: set_node_def)
  have tl: "?t < length (heap s)" "?t = ?l0 + (length relpath - 1)" "?l0 \<le> ?t" "?t < ?l0 + length relpath"
    using len ne by (cases relpath; simp)+
  have slot: "\<And>i. i < length relpath \<Longrightarrow>
      load s (snd (relpath ! i)) = Inr (Node_at (?l0 + i)) \<and>
      (snd (relpath ! i) = Local_slot \<or> (\<exists>c j. snd (relpath ! i) = Child_slot c j \<and> ?l0 \<le> c \<and> c < ?l0 + i))"
    using ok by (simp add: chain_ok_def)
  have lastn: "last relpath = relpath ! (length relpath - 1)" using ne by (simp add: last_conv_nth)
  have li: "length relpath - 1 < length relpath" using ne by simp
  from slot [OF li] lastn tl have ll: "load s (snd (last relpath)) = Inr (Node_at ?t)"
    and lw: "snd (last relpath) = Local_slot \<or> (\<exists>c j. snd (last relpath) = Child_slot c j \<and> c < ?t)"
    by auto
  have lA: "load ?sA (snd (last relpath)) = Inr (Node_at ?t)"
  proof (rule load_unchanged [OF hA(3) ll])
    from lw tl show "snd (last relpath) = Local_slot \<or> (\<exists>c j. snd (last relpath) = Child_slot c j \<and>
        (c < length (heap s) \<longrightarrow> c < length (heap ?sA) \<and> heap ?sA ! c = heap s ! c))"
      by (auto simp: hA nth_append)
  qed
  have nA: "node_at ?sA (Node_at ?t) = Inr (?t, n)"
    using n tl by (simp add: node_at_def hA nth_append)
  let ?n' = "n\<lparr>width := 1, keys := (keys n)[0 := k], children := (children n)[0 := Node_at b]\<rparr>"
  from add_child_fresh4 [OF lA nA nsh, of sse2 k "Node_at b"] ac
  have cr: "childref = Child_slot ?t 0" and s2: "s2 = set_node ?sA ?t ?n'" by simp_all
  have h2: "heap s2 = (heap s @ [Some (Inner node)])[?t := Some (Inner ?n')]" "root s2 = root s" "dummy s2 = dummy s"
    using s2 hA by (simp_all add: set_node_def)
  have bt: "b \<noteq> ?t" "b = ?l0 + length relpath" using b tl len by simp_all
  show ?thesis
    unfolding chain_inv_def
  proof (intro conjI)
    show "root s2 = root s0" using h2 r by simp
    show "length (heap s2) = ?l0 + length (relpath @ [(depth, childref)])" using h2 len by simp
    show "take ?l0 (heap s2) = heap s0" using h2 tk tl len by simp
    show "chain_ok ?l0 s2 (relpath @ [(depth, childref)])"
      unfolding chain_ok_def
    proof (intro allI impI)
      fix i assume i: "i < length (relpath @ [(depth, childref)])"
      show "load s2 (snd ((relpath @ [(depth, childref)]) ! i)) = Inr (Node_at (?l0 + i)) \<and>
          (snd ((relpath @ [(depth, childref)]) ! i) = Local_slot \<or>
           (\<exists>c j. snd ((relpath @ [(depth, childref)]) ! i) = Child_slot c j \<and> ?l0 \<le> c \<and> c < ?l0 + i))"
      proof (cases "i < length relpath")
        case True
        from slot [OF True] have a: "load s (snd (relpath ! i)) = Inr (Node_at (?l0 + i))"
          and w: "snd (relpath ! i) = Local_slot \<or> (\<exists>c j. snd (relpath ! i) = Child_slot c j \<and> ?l0 \<le> c \<and> c < ?l0 + i)"
          by simp_all
        have "load s2 (snd (relpath ! i)) = Inr (Node_at (?l0 + i))"
        proof (rule load_unchanged [OF h2(3) a])
          from w True tl show "snd (relpath ! i) = Local_slot \<or> (\<exists>c j. snd (relpath ! i) = Child_slot c j \<and>
              (c < length (heap s) \<longrightarrow> c < length (heap s2) \<and> heap s2 ! c = heap s ! c))"
            by (auto simp: h2 nth_append nth_list_update)
        qed
        with w True show ?thesis by (simp add: nth_append)
      next
        case False
        with i have ie: "i = length relpath" by simp
        have "load s2 (Child_slot ?t 0) = Inr (Node_at b)"
          using tl nsh by (simp add: load_def node_at_def h2 nth_list_update arr_get_def)
        with ie cr bt tl show ?thesis by (simp add: nth_append)
      qed
    qed
    have "heap s2 ! (length (heap s2) - 1) = Some (Inner node)"
      using h2 bt b by (simp add: nth_list_update nth_append)
    with sh show "relpath @ [(depth, childref)] = [] \<or>
      (\<exists>n. heap s2 ! (length (heap s2) - 1) = Some (Inner n) \<and> ntype n = nsd_node4 \<and>
           width n = 0 \<and> length (keys n) = 4 \<and> length (children n) = 4)"
      by simp
  qed
qed

lemma chain_no_memory:
  assumes "split_leaf_chain sse2 s relpath key depth cnt = Inr (nsd_no_memory, s', rp', d')"
    and "chain_inv s0 s relpath"
  shows "same_tree s0 s'"
  using assms
proof (induction "unat cnt - unat depth" arbitrary: s relpath depth rule: less_induct)
  case less
  let ?l0 = "length (heap s0)"
  from less.prems(2) have r: "root s = root s0" and len: "length (heap s) = ?l0 + length relpath"
    and tk: "take ?l0 (heap s) = heap s0" and ok: "chain_ok ?l0 s relpath"
    by (simp_all add: chain_inv_def)
  show ?case
  proof (cases "depth < cnt")
    case False
    with less.prems(1) show ?thesis by (subst (asm) split_leaf_chain.simps) simp
  next
    case True
    obtain ob s1 where al: "alloc_node s nsd_node4 = (ob, s1)" by (cases "alloc_node s nsd_node4")
    show ?thesis
    proof (cases ob)
      case None
      from less.prems(1) True al None have d: "discard_chain s1 relpath = Inr s'"
        by (subst (asm) split_leaf_chain.simps) (auto dest!: fbind_InrD)
      from al None have h1: "heap s1 = heap s" "root s1 = root s" "dummy s1 = dummy s"
        using alloc_node_None [of s nsd_node4 s1] by auto
      have ok1: "chain_ok ?l0 s1 relpath"
        unfolding chain_ok_def
      proof (intro allI impI)
        fix i assume i: "i < length relpath"
        with ok have a: "load s (snd (relpath ! i)) = Inr (Node_at (?l0 + i))"
          and w: "snd (relpath ! i) = Local_slot \<or> (\<exists>c j. snd (relpath ! i) = Child_slot c j \<and> ?l0 \<le> c \<and> c < ?l0 + i)"
          by (simp_all add: chain_ok_def)
        from w have "snd (relpath ! i) = Local_slot \<or> (\<exists>c j. snd (relpath ! i) = Child_slot c j \<and>
            (c < length (heap s) \<longrightarrow> c < length (heap s1) \<and> heap s1 ! c = heap s ! c))"
          by (auto simp: h1)
        from load_unchanged [OF h1(3) a this] w
        show "load s1 (snd (relpath ! i)) = Inr (Node_at (?l0 + i)) \<and>
          (snd (relpath ! i) = Local_slot \<or> (\<exists>c j. snd (relpath ! i) = Child_slot c j \<and> ?l0 \<le> c \<and> c < ?l0 + i))"
          by simp
      qed
      from discard_chain_frees [OF d ok1] h1 have
        fr: "root s' = root s" "length (heap s') = length (heap s)"
        and cells: "\<forall>j < length (heap s). heap s' ! j = (if ?l0 \<le> j \<and> j < ?l0 + length relpath then None else heap s ! j)"
        by simp_all
      show ?thesis
      proof (rule same_tree_from_cells [where k = "length relpath"])
        show "root s' = root s0" using fr r by simp
        show "length (heap s') = ?l0 + length relpath" using fr len by simp
        fix j assume j: "j < ?l0"
        with cells len have "heap s' ! j = heap s ! j" by simp
        also have "\<dots> = take ?l0 (heap s) ! j" using j by simp
        finally show "heap s' ! j = heap s0 ! j" using tk by simp
      next
        fix j assume "?l0 \<le> j" "j < ?l0 + length relpath"
        with cells len show "heap s' ! j = None" by simp
      qed
    next
      case (Some b)
      from less.prems(1) True al Some obtain node childref s2 relpath' where
        nd: "(if 0 < chain_len cnt depth then
                fbind (memcpy (prefix_arr (zeroed_node nsd_node4)) key (1 + unat depth) (unat (chain_len cnt depth)))
                  (\<lambda>pre. Inr (zeroed_node nsd_node4\<lparr>prefix_arr := pre, prefix_len := chain_len cnt depth\<rparr>))
              else Inr (zeroed_node nsd_node4)) = Inr node"
        and cr: "(if relpath = [] then Inr (Local_slot, (set_node s1 b node)\<lparr>dummy := Node_at b\<rparr>)
                 else
                   fbind (arr_get key (unat depth)) (\<lambda>k.
                   add_child sse2 (set_node s1 b node) (snd (last relpath)) k (Node_at b))) = Inr (childref, s2)"
        and pu: "push relpath (depth, childref) = Inr relpath'"
        and rc: "split_leaf_chain sse2 s2 relpath' key (depth + (1 + chain_len cnt depth)) cnt =
                   Inr (nsd_no_memory, s', rp', d')"
        by (subst (asm) split_leaf_chain.simps) (auto simp: Let_def dest!: fbind_InrD)
      from al Some have h1: "b = length (heap s)" "heap s1 = heap s @ [Some (Inner (zeroed_node nsd_node4))]"
          "root s1 = root s" "dummy s1 = dummy s"
        by (auto simp: alloc_node_def dest: alloc_Some)
      from chain_node_shape [OF nd] have sh: "ntype node = nsd_node4" "width node = 0"
          "length (keys node) = 4" "length (children node) = 4" by simp_all
      from pu have rp: "relpath' = relpath @ [(depth, childref)]"
        by (auto simp: push_def split: if_splits)
      have inv': "chain_inv s0 s2 relpath'"
      proof (cases "relpath = []")
        case True
        with cr have "childref = Local_slot" "s2 = (set_node s1 b node)\<lparr>dummy := Node_at b\<rparr>" by simp_all
        with chain_inv_first [OF less.prems(2) [unfolded True] h1(2,3) sh h1(1), of depth] rp True
        show ?thesis by simp
      next
        case False
        with cr obtain k where "add_child sse2 (set_node s1 b node) (snd (last relpath)) k (Node_at b) = Inr (childref, s2)"
          by (auto dest!: fbind_InrD)
        from chain_inv_next [OF less.prems(2) False h1(2,3,4) sh h1(1) this] rp show ?thesis by simp
      qed
      from less.hyps [OF chain_len_step [OF True] rc inv'] show ?thesis .
    qed
  qed
qed

lemma split_leaf_no_memory:
  assumes "split_leaf sse2 s path key noderef leaf lf cnt = Inr (nsd_no_memory, s', path', d')"
  shows "path' = path \<and> same_tree s s'"
proof -
  from assms obtain depth0 rc s1 relpath depth where
    ch: "split_leaf_chain sse2 s [] key depth0 cnt = Inr (rc, s1, relpath, depth)"
    and r: "(if rc = nsd_no_memory then Inr (nsd_no_memory, s1, path, depth)
     else
       fbind (cassert (depth = cnt)) (\<lambda>_.
       fbind (arr_get relpath 0) (\<lambda>(_, r0).
       fbind (load s1 r0) (\<lambda>p0.
       fbind (store s1 noderef p0) (\<lambda>s2.
       fbind
         (if 0 < length relpath - 1 then
            fbind (cassert (length path \<le> NSD_MAX_HEIGHT - (length relpath - 1))) (\<lambda>_.
            Inr (path @ tl relpath))
          else Inr path)
         (\<lambda>path'.
       fbind (top_level path') (\<lambda>(_, tip).
       fbind (arr_get (leaf_key lf) (unat depth)) (\<lambda>k.
       fbind (add_child sse2 s2 tip k leaf) (\<lambda>(_, s3).
       Inr (nsd_ok, s3, path', depth)))))))))) = Inr (nsd_no_memory, s', path', d')"
    unfolding split_leaf_def by (fastforce dest!: fbind_InrD)
  have rc: "rc = nsd_no_memory"
  proof (rule ccontr)
    assume "rc \<noteq> nsd_no_memory"
    with r show False by (auto dest!: fbind_InrD split: if_splits)
  qed
  with r have e: "s' = s1" "path' = path" by simp_all
  have "chain_inv s s []" by (simp add: chain_inv_def chain_ok_def)
  from chain_no_memory [OF ch [unfolded rc] this] e show ?thesis by simp
qed

lemma descend_or_insert_Return:
  assumes "descend_or_insert sse2 s path key key_len noderef depth = Inr (Return (rc, s', path'))"
  shows "insert_leaf sse2 s path key key_len noderef depth = Inr (rc, s', path')"
proof -
  from assms obtain childref where
    r: "(if childref \<noteq> Null_slot then
       fbind (push path (depth, childref)) (\<lambda>path'.
       Inr (Continue (depth + 1, s, path')))
     else
       fbind (insert_leaf sse2 s path key key_len noderef depth) (\<lambda>(rc, s1, path').
       Inr (if rc = nsd_ok then Continue (key_len, s1, path') else Return (rc, s1, path')))) =
     Inr (Return (rc, s', path'))"
    unfolding descend_or_insert_def by (fastforce dest!: fbind_InrD)
  then show ?thesis
    by (auto dest!: fbind_InrD split: if_splits)
qed

text \<open>The iterations counted by \<open>make_path_iters\<close> are the first iterations of the loop.\<close>

lemma make_path_loop_iters:
  "make_path_iters n sse2 s path key key_len depth = Some (depth0, s0, path0) \<Longrightarrow>
   make_path_loop sse2 s path key key_len depth = make_path_loop sse2 s0 path0 key key_len depth0"
proof (induction n arbitrary: s path depth)
  case 0
  then show ?case by simp
next
  case (Suc n)
  from Suc.prems obtain d' s1 p1 where
    lt: "depth < key_len" and
    it: "make_path_iter sse2 s path key key_len depth = Inr (Continue (d', s1, p1))" and
    r: "make_path_iters n sse2 s1 p1 key key_len d' = Some (depth0, s0, path0)"
    by (auto split: if_splits sum.splits step.splits)
  have "make_path_loop sse2 s path key key_len depth = make_path_loop sse2 s1 p1 key key_len d'"
    using lt it by (subst make_path_loop.simps) simp
  with Suc.IH [OF r] show ?case by simp
qed

lemma make_path_iter_no_memory:
  assumes "make_path_iter sse2 s path key key_len depth = Inr (Return (nsd_no_memory, s', path'))"
  shows "(path' = path \<and> same_tree s s') \<or>
         (\<exists>d0 noderef p a lf cnt s1 d.
            top_level path = Inr (d0, noderef) \<and> load s noderef = Inr p \<and>
            leaf_at s p = Inr (a, lf) \<and>
            compare_keys key key_len (leaf_key lf) (leaf_key_len lf) = Inr cnt \<and>
            split_leaf sse2 s path key noderef p lf cnt = Inr (nsd_ok, s1, path', d) \<and>
            insert_leaf sse2 s1 path' key key_len noderef d = Inr (nsd_no_memory, s', path') \<and>
            same_tree s1 s') \<or>
         (\<exists>d0 noderef p a n cnt s1.
            top_level path = Inr (d0, noderef) \<and> load s noderef = Inr p \<and>
            node_at s p = Inr (a, n) \<and>
            compare_keys (drop (unat depth) key) (key_len - depth) (prefix_arr n) (prefix_len n) =
              Inr cnt \<and>
            cnt \<noteq> prefix_len n \<and>
            split_node sse2 s key_len depth noderef p cnt = Inr (nsd_ok, s1) \<and> path' = path \<and>
            insert_leaf sse2 s1 path key key_len noderef (depth + cnt) =
              Inr (nsd_no_memory, s', path') \<and>
            same_tree s1 s')"
proof -
  from assms obtain d0 noderef p where
    tl: "top_level path = Inr (d0, noderef)" and ld: "load s noderef = Inr p" and
    r: "(case p of
       Leaf_at _ \<Rightarrow>
         fbind (leaf_at s p) (\<lambda>(_, lf).
         fbind (cassert (leaf_key_len lf \<le> key_len)) (\<lambda>_.
         fbind (compare_keys key key_len (leaf_key lf) (leaf_key_len lf)) (\<lambda>cnt.
         fbind (cassert (depth \<le> cnt)) (\<lambda>_.
         if cnt = key_len then
           fbind (cassert (key_len = leaf_key_len lf)) (\<lambda>_. Inr (Return (nsd_ok, s, path)))
         else
           fbind (cassert (cnt < key_len)) (\<lambda>_.
           fbind (cassert (cnt < leaf_key_len lf)) (\<lambda>_.
           fbind (split_leaf sse2 s path key noderef p lf cnt) (\<lambda>(rc, s1, path', depth').
           if rc = nsd_ok then descend_or_insert sse2 s1 path' key key_len noderef depth'
           else Inr (Return (rc, s1, path')))))))))
     | _ \<Rightarrow>
         fbind (node_at s p) (\<lambda>(_, n).
         if prefix_len n \<noteq> 0 then
           fbind (compare_keys (drop (unat depth) key) (key_len - depth)
                    (prefix_arr n) (prefix_len n)) (\<lambda>cnt.
           fbind (top_level path) (\<lambda>(d, _).
           fbind (cassert (d = depth - 1)) (\<lambda>_.
           fbind
             (if cnt \<noteq> prefix_len n then split_node sse2 s key_len depth noderef p cnt
              else Inr (nsd_ok, s))
             (\<lambda>(rc, s1).
           if rc = nsd_ok then descend_or_insert sse2 s1 path key key_len noderef (depth + cnt)
           else Inr (Return (rc, s1, path))))))
         else descend_or_insert sse2 s path key key_len noderef depth)) =
      Inr (Return (nsd_no_memory, s', path'))"
    unfolding make_path_iter_def by (fastforce dest!: fbind_InrD)
  have di: "\<And>s1 path1 d. descend_or_insert sse2 s1 path1 key key_len noderef d =
      Inr (Return (nsd_no_memory, s', path')) \<Longrightarrow>
      insert_leaf sse2 s1 path1 key key_len noderef d = Inr (nsd_no_memory, s', path') \<and>
      path' = path1 \<and> same_tree s1 s'"
  proof -
    fix s1 path1 d
    assume "descend_or_insert sse2 s1 path1 key key_len noderef d =
      Inr (Return (nsd_no_memory, s', path'))"
    then have i: "insert_leaf sse2 s1 path1 key key_len noderef d = Inr (nsd_no_memory, s', path')"
      by (rule descend_or_insert_Return)
    from insert_leaf_no_memory [OF i] i
    show "insert_leaf sse2 s1 path1 key key_len noderef d = Inr (nsd_no_memory, s', path') \<and>
      path' = path1 \<and> same_tree s1 s'" by simp
  qed
  show ?thesis
  proof (cases "\<exists>a. p = Leaf_at a")
    case True
    with r obtain a lf cnt where
      la: "leaf_at s p = Inr (a, lf)" and
      ck: "compare_keys key key_len (leaf_key lf) (leaf_key_len lf) = Inr cnt" and
      r2: "(if cnt = key_len then
           fbind (cassert (key_len = leaf_key_len lf)) (\<lambda>_. Inr (Return (nsd_ok, s, path)))
         else
           fbind (cassert (cnt < key_len)) (\<lambda>_.
           fbind (cassert (cnt < leaf_key_len lf)) (\<lambda>_.
           fbind (split_leaf sse2 s path key noderef p lf cnt) (\<lambda>(rc, s1, path', depth').
           if rc = nsd_ok then descend_or_insert sse2 s1 path' key key_len noderef depth'
           else Inr (Return (rc, s1, path')))))) = Inr (Return (nsd_no_memory, s', path'))"
      by (fastforce dest!: fbind_InrD)
    then obtain rc s1 path1 d where
      sl: "split_leaf sse2 s path key noderef p lf cnt = Inr (rc, s1, path1, d)"
      and r3: "(if rc = nsd_ok then descend_or_insert sse2 s1 path1 key key_len noderef d
           else Inr (Return (rc, s1, path1))) = Inr (Return (nsd_no_memory, s', path'))"
      by (cases "cnt = key_len") (auto dest!: fbind_InrD)
    show ?thesis
    proof (cases "rc = nsd_ok")
      case True
      with r3 di have e: "insert_leaf sse2 s1 path1 key key_len noderef d =
          Inr (nsd_no_memory, s', path') \<and> path' = path1 \<and> same_tree s1 s'"
        by simp
      with sl True tl ld la ck show ?thesis by blast
    next
      case False
      with r3 have "rc = nsd_no_memory" "s1 = s'" "path1 = path'" by simp_all
      with sl have "split_leaf sse2 s path key noderef p lf cnt = Inr (nsd_no_memory, s', path', d)"
        by simp
      from split_leaf_no_memory [OF this] show ?thesis by simp
    qed
  next
    case False
    with r obtain a n where
      na: "node_at s p = Inr (a, n)" and
      r2: "(if prefix_len n \<noteq> 0 then
           fbind (compare_keys (drop (unat depth) key) (key_len - depth)
                    (prefix_arr n) (prefix_len n)) (\<lambda>cnt.
           fbind (top_level path) (\<lambda>(d, _).
           fbind (cassert (d = depth - 1)) (\<lambda>_.
           fbind
             (if cnt \<noteq> prefix_len n then split_node sse2 s key_len depth noderef p cnt
              else Inr (nsd_ok, s))
             (\<lambda>(rc, s1).
           if rc = nsd_ok then descend_or_insert sse2 s1 path key key_len noderef (depth + cnt)
           else Inr (Return (rc, s1, path))))))
         else descend_or_insert sse2 s path key key_len noderef depth) =
        Inr (Return (nsd_no_memory, s', path'))"
      by (cases p) (fastforce dest!: fbind_InrD)+
    show ?thesis
    proof (cases "prefix_len n \<noteq> 0")
      case False
      with r2 di show ?thesis by simp
    next
      case True
      with r2 obtain cnt rc s1 where
        ck: "compare_keys (drop (unat depth) key) (key_len - depth) (prefix_arr n) (prefix_len n) =
               Inr cnt"
        and sn: "(if cnt \<noteq> prefix_len n then split_node sse2 s key_len depth noderef p cnt
              else Inr (nsd_ok, s)) = Inr (rc, s1)"
        and r3: "(if rc = nsd_ok then descend_or_insert sse2 s1 path key key_len noderef (depth + cnt)
           else Inr (Return (rc, s1, path))) = Inr (Return (nsd_no_memory, s', path'))"
        by (fastforce dest!: fbind_InrD)
      show ?thesis
      proof (cases "rc = nsd_ok")
        case ok: True
        with r3 di have e: "insert_leaf sse2 s1 path key key_len noderef (depth + cnt) =
            Inr (nsd_no_memory, s', path') \<and> path' = path \<and> same_tree s1 s'"
          by simp
        show ?thesis
        proof (cases "cnt \<noteq> prefix_len n")
          case True
          with sn ok have "split_node sse2 s key_len depth noderef p cnt = Inr (nsd_ok, s1)"
            by simp
          with e True tl ld na ck show ?thesis by blast
        next
          case False
          with sn have "s1 = s" by simp
          with e show ?thesis by simp
        qed
      next
        case False
        with r3 have e: "rc = nsd_no_memory" "s1 = s'" "path' = path" by simp_all
        with sn have "split_node sse2 s key_len depth noderef p cnt = Inr (nsd_no_memory, s')"
          by (auto split: if_splits)
        from split_node_no_memory [OF this] e show ?thesis by simp
      qed
    qed
  qed
qed

lemma make_path_loop_no_memory:
  assumes "make_path_loop sse2 s path key key_len depth = Some (Inr (nsd_no_memory, s', path'))"
  shows "\<exists>n depth0 s0 path0.
           make_path_iters n sse2 s path key key_len depth = Some (depth0, s0, path0) \<and>
           depth0 < key_len \<and>
           make_path_iter sse2 s0 path0 key key_len depth0 = Inr (Return (nsd_no_memory, s', path'))"
proof -
  have "y = Inr (nsd_no_memory, s', path') \<longrightarrow>
        (\<exists>n depth0 s0 path0.
           make_path_iters n sse2 s path key key_len depth = Some (depth0, s0, path0) \<and>
           depth0 < key_len \<and>
           make_path_iter sse2 s0 path0 key key_len depth0 = Inr (Return (nsd_no_memory, s', path')))"
    if "make_path_loop sse2 s path key key_len depth = Some y" for y
    using that
  proof (induction sse2 s path key key_len depth y rule: make_path_loop.raw_induct [rotated 1, consumes 1])
    case (1 loop sse2 s path key key_len depth y)
    note ih = "1"(1) and eq = "1"(2)
    show ?case
    proof (cases "depth < key_len")
      case False
      with eq show ?thesis by auto
    next
      case True
      show ?thesis
      proof (cases "make_path_iter sse2 s path key key_len depth")
        case (Inl e)
        with eq True show ?thesis by auto
      next
        case (Inr st)
        show ?thesis
        proof (cases st)
          case (Return r)
          show ?thesis
          proof
            assume y: "y = Inr (nsd_no_memory, s', path')"
            from eq True Inr Return have "y = Inr r" by simp
            with y have "r = (nsd_no_memory, s', path')" by simp
            with Inr Return have
              "make_path_iter sse2 s path key key_len depth = Inr (Return (nsd_no_memory, s', path'))"
              by simp
            moreover have "make_path_iters 0 sse2 s path key key_len depth = Some (depth, s, path)"
              by simp
            ultimately show "\<exists>n depth0 s0 path0.
               make_path_iters n sse2 s path key key_len depth = Some (depth0, s0, path0) \<and>
               depth0 < key_len \<and>
               make_path_iter sse2 s0 path0 key key_len depth0 =
                 Inr (Return (nsd_no_memory, s', path'))"
              using True by blast
          qed
        next
          case (Continue c)
          obtain d' s1 p1 where c: "c = (d', s1, p1)" by (cases c)
          with eq True Inr Continue have "loop sse2 s1 p1 key key_len d' = Some y" by simp
          note h = ih [OF this]
          show ?thesis
          proof
            assume "y = Inr (nsd_no_memory, s', path')"
            with h obtain n depth0 s0 path0 where
              a: "make_path_iters n sse2 s1 p1 key key_len d' = Some (depth0, s0, path0)"
              and b: "depth0 < key_len"
              and i: "make_path_iter sse2 s0 path0 key key_len depth0 =
                        Inr (Return (nsd_no_memory, s', path'))"
              by blast
            have "make_path_iters (Suc n) sse2 s path key key_len depth = Some (depth0, s0, path0)"
              using a True Inr Continue c by simp
            with b i show "\<exists>n depth0 s0 path0.
               make_path_iters n sse2 s path key key_len depth = Some (depth0, s0, path0) \<and>
               depth0 < key_len \<and>
               make_path_iter sse2 s0 path0 key key_len depth0 =
                 Inr (Return (nsd_no_memory, s', path'))"
              by blast
          qed
        qed
      qed
    qed
  qed
  with assms show ?thesis by blast
qed

text \<open>
  Claim C6, amended. As stated (after a call of \<open>nsd_make_path\<close> that returns
  \<open>no_memory\<close> everything allocated within the failing operation is freed and the tree
  observes no partial insertion) the claim fails: the rollback covers the failing step
  only. When a leaf split or a node split has completed and the leaf allocation that
  follows it in the same call fails, the nodes of the split stay in the tree.
  What the code does: a call that returns \<open>no_memory\<close> on memory \<open>s\<close> and path \<open>path\<close>
  returns from an iteration of its loop; \<open>n\<close> iterations ran before it, from the path
  and \<open>depth\<close> set up at the entry of the call, and left the memory \<open>s0\<close> and the path
  \<open>path0\<close>. Either the tree and the path are as they were at the entry of the failing
  iteration and every cell allocated in it is freed (the leaf split failed in its chain
  and freed the chain in full, the node split failed, or the leaf insertion failed at
  once), or the leaf split or the node split of that iteration, on the node or leaf at
  the top of \<open>path0\<close>, completed and the leaf insertion after it failed: then the tree
  and the path are as the split left them, with every cell allocated after it freed.
\<close>

theorem C6_no_memory_rollback_amended:
  assumes "nsd_make_path sse2 s path key key_len = Some (Inr (nsd_no_memory, s', path'))"
  shows "\<exists>path1 depth1 n depth0 s0 path0.
           path_entry path key_len = Inr (path1, depth1) \<and>
           make_path_iters n sse2 s path1 key key_len depth1 = Some (depth0, s0, path0) \<and>
           depth0 < key_len \<and>
           make_path_iter sse2 s0 path0 key key_len depth0 = Inr (Return (nsd_no_memory, s', path')) \<and>
           ((path' = path0 \<and> same_tree s0 s') \<or>
            (\<exists>d0 noderef p a lf cnt s1 d.
               top_level path0 = Inr (d0, noderef) \<and> load s0 noderef = Inr p \<and>
               leaf_at s0 p = Inr (a, lf) \<and>
               compare_keys key key_len (leaf_key lf) (leaf_key_len lf) = Inr cnt \<and>
               split_leaf sse2 s0 path0 key noderef p lf cnt = Inr (nsd_ok, s1, path', d) \<and>
               insert_leaf sse2 s1 path' key key_len noderef d = Inr (nsd_no_memory, s', path') \<and>
               same_tree s1 s') \<or>
            (\<exists>d0 noderef p a n cnt s1.
               top_level path0 = Inr (d0, noderef) \<and> load s0 noderef = Inr p \<and>
               node_at s0 p = Inr (a, n) \<and>
               compare_keys (drop (unat depth0) key) (key_len - depth0) (prefix_arr n) (prefix_len n) =
                 Inr cnt \<and>
               cnt \<noteq> prefix_len n \<and>
               split_node sse2 s0 key_len depth0 noderef p cnt = Inr (nsd_ok, s1) \<and> path' = path0 \<and>
               insert_leaf sse2 s1 path0 key key_len noderef (depth0 + cnt) =
                 Inr (nsd_no_memory, s', path') \<and>
               same_tree s1 s'))"
proof -
  from assms obtain path1 depth1 where
    pe: "path_entry path key_len = Inr (path1, depth1)" and
    lp: "make_path_loop sse2 s path1 key key_len depth1 = Some (Inr (nsd_no_memory, s', path'))"
    unfolding nsd_make_path_def by (auto split: sum.splits)
  from make_path_loop_no_memory [OF lp] obtain n depth0 s0 path0 where
    it: "make_path_iters n sse2 s path1 key key_len depth1 = Some (depth0, s0, path0)"
    and lt: "depth0 < key_len"
    and i: "make_path_iter sse2 s0 path0 key key_len depth0 = Inr (Return (nsd_no_memory, s', path'))"
    by blast
  note c = make_path_iter_no_memory [OF i]
  show ?thesis
    apply (rule exI [of _ path1], rule exI [of _ depth1], rule exI [of _ n])
    apply (rule exI [of _ depth0], rule exI [of _ s0], rule exI [of _ path0])
    apply (intro conjI)
        apply (rule pe)
       apply (rule it)
      apply (rule lt)
     apply (rule i)
    apply (rule c)
    done
qed


theorem C6_no_memory_rollback_amended_witness:
  "put_keys False (empty_tree [True, True, False]) [replicate 11 0x48 @ [0, 0]] =
     Some (Inr ([nsd_ok], one_leaf_tree (replicate 11 0x48 @ [0, 0]) [True, False])) \<and>
   (\<exists>s' path'.
      nsd_make_path False (one_leaf_tree (replicate 11 0x48 @ [0, 0]) [True, False]) []
        (replicate 10 0x48 @ [0x49, 0, 0]) 13 = Some (Inr (nsd_no_memory, s', path')) \<and>
      heap s' = heap (one_leaf_tree (replicate 11 0x48 @ [0, 0]) [True, False]) @ [None] \<and>
      (\<exists>path1 depth1 n depth0 s0 path0.
         path_entry [] 13 = Inr (path1, depth1) \<and>
         make_path_iters n False (one_leaf_tree (replicate 11 0x48 @ [0, 0]) [True, False]) path1
           (replicate 10 0x48 @ [0x49, 0, 0]) 13 depth1 = Some (depth0, s0, path0) \<and>
         depth0 < 13 \<and>
         make_path_iter False s0 path0 (replicate 10 0x48 @ [0x49, 0, 0]) 13 depth0 =
           Inr (Return (nsd_no_memory, s', path')) \<and>
         ((path' = path0 \<and> same_tree s0 s') \<or>
          (\<exists>d0 noderef p a lf cnt s1 d.
             top_level path0 = Inr (d0, noderef) \<and> load s0 noderef = Inr p \<and>
             leaf_at s0 p = Inr (a, lf) \<and>
             compare_keys (replicate 10 0x48 @ [0x49, 0, 0]) 13 (leaf_key lf) (leaf_key_len lf) =
               Inr cnt \<and>
             split_leaf False s0 path0 (replicate 10 0x48 @ [0x49, 0, 0]) noderef p lf cnt =
               Inr (nsd_ok, s1, path', d) \<and>
             insert_leaf False s1 path' (replicate 10 0x48 @ [0x49, 0, 0]) 13 noderef d =
               Inr (nsd_no_memory, s', path') \<and>
             same_tree s1 s') \<or>
          (\<exists>d0 noderef p a n cnt s1.
             top_level path0 = Inr (d0, noderef) \<and> load s0 noderef = Inr p \<and>
             node_at s0 p = Inr (a, n) \<and>
             compare_keys (drop (unat depth0) (replicate 10 0x48 @ [0x49, 0, 0])) (13 - depth0)
               (prefix_arr n) (prefix_len n) = Inr cnt \<and>
             cnt \<noteq> prefix_len n \<and>
             split_node False s0 13 depth0 noderef p cnt = Inr (nsd_ok, s1) \<and> path' = path0 \<and>
             insert_leaf False s1 path0 (replicate 10 0x48 @ [0x49, 0, 0]) 13 noderef (depth0 + cnt) =
               Inr (nsd_no_memory, s', path') \<and>
             same_tree s1 s'))))"
proof -
  let ?S = "one_leaf_tree (replicate 11 0x48 @ [0, 0]) [True, False]"
  let ?K = "replicate 10 0x48 @ [0x49, 0, 0] :: u8 list"
  have a: "put_keys False (empty_tree [True, True, False]) [replicate 11 0x48 @ [0, 0]] =
     Some (Inr ([nsd_ok], ?S))"
    by code_simp
  have b: "(case nsd_make_path False ?S [] ?K 13 of
              Some (Inr (rc, s', p)) \<Rightarrow> rc = nsd_no_memory \<and> heap s' = heap ?S @ [None]
            | _ \<Rightarrow> False)"
    by code_simp
  then obtain s' p' where c: "nsd_make_path False ?S [] ?K 13 = Some (Inr (nsd_no_memory, s', p'))"
    and d: "heap s' = heap ?S @ [None]"
    by (auto split: option.splits sum.splits)
  note th = C6_no_memory_rollback_amended [OF c]
  show ?thesis
    apply (rule conjI)
     apply (rule a)
    apply (rule exI [of _ s'], rule exI [of _ p'])
    apply (intro conjI)
      apply (rule c)
     apply (rule d)
    apply (rule th)
    done
qed

text \<open>
  The counterexample to C6 as stated: the tree holds the key \<open>48 48 00 00\<close>, the next two
  allocations succeed and fail. \<open>nsd_make_path\<close> for \<open>48 49 00 00\<close> splits the leaf (one
  new \<open>nsd_node4_t\<close>, cell 2), fails to allocate the new leaf and returns \<open>no_memory\<close>;
  the node allocated in the call is still in the tree, between the root and the old leaf.
\<close>

theorem C6_split_survives_failed_insert:
  "put_keys False (empty_tree [True, True, False]) [[0x48, 0x48, 0, 0]] =
     Some (Inr ([nsd_ok], one_leaf_tree [0x48, 0x48, 0, 0] [True, False])) \<and>
   child_of False (one_leaf_tree [0x48, 0x48, 0, 0] [True, False]) (Node_at 0) 0x48 = Inr (Leaf_at 1) \<and>
   length (heap (one_leaf_tree [0x48, 0x48, 0, 0] [True, False])) = 2 \<and>
   (case nsd_make_path False (one_leaf_tree [0x48, 0x48, 0, 0] [True, False]) [] [0x48, 0x49, 0, 0] 4 of
      Some (Inr (rc, s', p)) \<Rightarrow>
        rc = nsd_no_memory \<and> root s' = Node_at 0 \<and>
        child_of False s' (Node_at 0) 0x48 = Inr (Node_at 2) \<and>
        map_sum id (ntype \<circ> snd) (node_at s' (Node_at 2)) = Inr nsd_node4 \<and>
        child_of False s' (Node_at 2) 0x48 = Inr (Leaf_at 1) \<and>
        length (heap s') = 3
    | _ \<Rightarrow> False)"
  by code_simp

subsection \<open>Lookup, insertion and promotion\<close>

text \<open>
  Claim C1 (\<open>nsd_find_path\<close> on a fresh path returns \<open>ok\<close> exactly for the keys
  inserted before) fails on the code. Insert the keys of \<open>aaaaaaaaaaa.\<close> and
  \<open>aaaaaaaaaab.\<close> into the empty tree: the keys agree on 10 octets, so the leaf split
  builds a chain of two \<open>nsd_node4_t\<close>. After the split the loop body goes on with
  \<open>noderef\<close>, which still addresses the slot of the first chain node, so the new leaf
  is added to the first chain node under \<open>key[10]\<close> instead of the chain tip. Both calls
  return \<open>ok\<close>, and \<open>nsd_find_path\<close> for the second key returns \<open>not_found\<close>, with
  either setting of \<open>HAVE_SSE2\<close>.
\<close>

theorem C1_inserted_key_not_found:
  "map_sum id key_of (nsd_make_key (replicate 255 0) (wire [replicate 11 0x61])) =
     Inr (replicate 11 0x48 @ [0, 0]) \<and>
   map_sum id key_of (nsd_make_key (replicate 255 0) (wire [replicate 10 0x61 @ [0x62]])) =
     Inr (replicate 10 0x48 @ [0x49, 0, 0]) \<and>
   (case put_keys False (empty_tree []) [replicate 11 0x48 @ [0, 0], replicate 10 0x48 @ [0x49, 0, 0]] of
      Some (Inr (rcs, s)) \<Rightarrow>
        rcs = [nsd_ok, nsd_ok] \<and>
        get_key False s (replicate 10 0x48 @ [0x49, 0, 0]) = Some (Inr nsd_not_found)
    | _ \<Rightarrow> False) \<and>
   (case put_keys True (empty_tree []) [replicate 11 0x48 @ [0, 0], replicate 10 0x48 @ [0x49, 0, 0]] of
      Some (Inr (rcs, s)) \<Rightarrow>
        rcs = [nsd_ok, nsd_ok] \<and>
        get_key True s (replicate 10 0x48 @ [0x49, 0, 0]) = Some (Inr nsd_not_found)
    | _ \<Rightarrow> False)"
  by code_simp

text \<open>
  Claim C9 (inserting a key again returns \<open>ok\<close> and leaves the tree unchanged, the
  path's top referencing the existing leaf) fails on the code at the same two keys, from the
  same defect as C1: the leaf of the second key hangs off the first chain node, the descent
  for that key does not reach it, and the second insertion of the key allocates another
  leaf with the same key (cell 5 next to cell 4) and changes the chain tip (cell 3).
\<close>

theorem C9_reinsert_changes_tree:
  "(case put_keys False (empty_tree []) [replicate 11 0x48 @ [0, 0], replicate 10 0x48 @ [0x49, 0, 0]] of
      Some (Inr (rcs, s)) \<Rightarrow>
        rcs = [nsd_ok, nsd_ok] \<and>
        (case nsd_make_path False s [] (replicate 10 0x48 @ [0x49, 0, 0]) 13 of
           Some (Inr (rc, s', p)) \<Rightarrow>
             rc = nsd_ok \<and> length (heap s) = 5 \<and> length (heap s') = 6 \<and>
             heap s ! 3 \<noteq> heap s' ! 3 \<and>
             map_sum id (leaf_key \<circ> snd) (leaf_at s' (Leaf_at 4)) = Inr (replicate 10 0x48 @ [0x49, 0, 0]) \<and>
             map_sum id (leaf_key \<circ> snd) (leaf_at s' (Leaf_at 5)) = Inr (replicate 10 0x48 @ [0x49, 0, 0]) \<and>
             fbind (top_level p) (\<lambda>(d, r). load s' r) = Inr (Leaf_at 5)
         | _ \<Rightarrow> False)
    | _ \<Rightarrow> False) \<and>
   (case put_keys True (empty_tree []) [replicate 11 0x48 @ [0, 0], replicate 10 0x48 @ [0x49, 0, 0]] of
      Some (Inr (rcs, s)) \<Rightarrow>
        rcs = [nsd_ok, nsd_ok] \<and>
        (case nsd_make_path True s [] (replicate 10 0x48 @ [0x49, 0, 0]) 13 of
           Some (Inr (rc, s', p)) \<Rightarrow>
             rc = nsd_ok \<and> length (heap s) = 5 \<and> length (heap s') = 6 \<and>
             heap s ! 3 \<noteq> heap s' ! 3 \<and>
             map_sum id (leaf_key \<circ> snd) (leaf_at s' (Leaf_at 4)) = Inr (replicate 10 0x48 @ [0x49, 0, 0]) \<and>
             map_sum id (leaf_key \<circ> snd) (leaf_at s' (Leaf_at 5)) = Inr (replicate 10 0x48 @ [0x49, 0, 0]) \<and>
             fbind (top_level p) (\<lambda>(d, r). load s' r) = Inr (Leaf_at 5)
         | _ \<Rightarrow> False)
    | _ \<Rightarrow> False)"
  by code_simp

text \<open>
  Claim C7 (the keys of every \<open>nsd_node4_t\<close>, \<open>nsd_node16_t\<close> and \<open>nsd_node32_t\<close>
  are strictly ascending after every sequence of insertions) fails on the code. Insert the
  keys of \<open>c.\<close>, \<open>e.\<close>, \<open>g.\<close>, \<open>i.\<close> and \<open>a.\<close>: the fifth insertion promotes
  the root to \<open>nsd_node16_t\<close> and \<open>add_child16\<close> uses the result of \<open>findgt\<close> as a
  0-based position. The scalar \<open>findgt\<close> returns the 1-based index, so the key lands one
  place too far right; the SSE2 \<open>findgt\<close> returns 0 for lane 0, which \<open>add_child16\<close>
  reads as "none greater" and appends.
\<close>

theorem C7_node16_keys_not_ascending:
  "(case put_keys False (empty_tree []) [[0x4a, 0, 0], [0x4c, 0, 0], [0x4e, 0, 0], [0x50, 0, 0], [0x48, 0, 0]] of
      Some (Inr (rcs, s)) \<Rightarrow>
        rcs = [nsd_ok, nsd_ok, nsd_ok, nsd_ok, nsd_ok] \<and>
        (case node_at s (root s) of
           Inr (a, n) \<Rightarrow>
             ntype n = nsd_node16 \<and> width n = 5 \<and> take 5 (keys n) = [0x4a, 0x48, 0x4c, 0x4e, 0x50] \<and>
             \<not> keys_ascending n
         | _ \<Rightarrow> False)
    | _ \<Rightarrow> False) \<and>
   (case put_keys True (empty_tree []) [[0x4a, 0, 0], [0x4c, 0, 0], [0x4e, 0, 0], [0x50, 0, 0], [0x48, 0, 0]] of
      Some (Inr (rcs, s)) \<Rightarrow>
        rcs = [nsd_ok, nsd_ok, nsd_ok, nsd_ok, nsd_ok] \<and>
        (case node_at s (root s) of
           Inr (a, n) \<Rightarrow>
             ntype n = nsd_node16 \<and> width n = 5 \<and> take 5 (keys n) = [0x4a, 0x4c, 0x4e, 0x50, 0x48] \<and>
             \<not> keys_ascending n
         | _ \<Rightarrow> False)
    | _ \<Rightarrow> False)"
  by code_simp

text \<open>
  Claim C4 (a promotion keeps exactly the bindings of the node) fails on the code for
  the promotion from \<open>nsd_node38_t\<close> to \<open>nsd_node48_t\<close>: \<open>node38_unxlat\<close> tests
  \<open>0x0b \<le> key\<close> first, so index \<open>0x0b\<close> (the digit 9, key octet \<open>0x3a\<close>) is
  translated to \<open>0x47\<close>. A node whose child for \<open>0x3a\<close> is leaf 7 is promoted by adding
  a child for \<open>0x46\<close> (the underscore): afterwards \<open>0x3a\<close> has no child and \<open>0x47\<close>
  leads to leaf 7.
\<close>

theorem C4_promotion_loses_binding:
  "xlat 0x39 = 0x3a \<and> xlat 0x5f = 0x46 \<and>
   child_of False node38_with_9 (root node38_with_9) 0x3a = Inr (Leaf_at 7) \<and>
   (case add_child38 node38_with_9 Root_slot 0x46 (Leaf_at 8) of
      Inr (r, s) \<Rightarrow>
        map_sum id (ntype \<circ> snd) (node_at s (root s)) = Inr nsd_node48 \<and>
        child_of False s (root s) 0x3a = Inr Null \<and>
        child_of False s (root s) 0x47 = Inr (Leaf_at 7) \<and>
        child_of False s (root s) 0x46 = Inr (Leaf_at 8)
    | _ \<Rightarrow> False)"
  by code_simp

text \<open>
  Claim C10 (no lookup or insertion indexes past the \<open>keys\<close> table of an
  \<open>nsd_node48_t\<close> or the \<open>children\<close> table of an \<open>nsd_node256_t\<close>) fails on the code:
  both arrays have \<open>NSD_MAX_WIDTH = 230\<close> entries and are indexed by the key octet
  unchecked. The octet \<open>0xE6 = 230\<close>, the translation of the wire octet \<open>0xFF\<close>, is one
  past the end of both; \<open>find_child48\<close> reads \<open>keys[230]\<close> and \<open>add_child256\<close>
  reads and writes \<open>children[230]\<close>.
\<close>

theorem C10_octet_e6_out_of_bounds:
  "xlat 0xff = 0xe6 \<and>
   length (keys (zeroed_node nsd_node48)) = 230 \<and>
   find_child48 0 (zeroed_node nsd_node48) 0xe6 = Inl Out_of_bounds \<and>
   find_child48 0 (zeroed_node nsd_node48) 0xff = Inl Out_of_bounds \<and>
   length (children (zeroed_node nsd_node256)) = 230 \<and>
   add_child256 empty_node256 Root_slot 0xe6 (Leaf_at 1) = Inl Out_of_bounds \<and>
   child_of False empty_node256 (root empty_node256) 0xe6 = Inl Out_of_bounds"
  by code_simp

end
